theory Spec2Isabelle
  imports Complex_Main "HOL-Library.Multiset"
begin

section \<open>The event manager of \<^verbatim>\<open>src/eventmanager.cc\<close>\<close>

text \<open>
  The class \<^verbatim>\<open>rpc::EventManager\<close> is a reactor: worker threads wait on one epoll
  instance, dispatch descriptor callbacks and run queued tasks whose time has come.
  This theory embeds its member functions as functions on a record of the object's
  fields. What a member function does to the outside world (the mutex, the eventfd,
  epoll, pthreads, the callbacks it invokes) is appended, in program order, to the
  field \<open>effects\<close>; what the outside world hands to the code (the caller's thread
  identifier, the identifiers of created threads, the clock, the result of
  \<^verbatim>\<open>epoll_wait\<close>) is an argument of the function.

  Scope of the embedding. Each function is the code one thread executes between
  entering and leaving the member function. Callbacks are opaque: invoking one is an
  effect, and what a callback, or another thread, does to the shared fields while the
  mutex is released is not part of these functions. \<^verbatim>\<open>WallTime\<close> is a \<^verbatim>\<open>double\<close> in the
  source and here the real number that the \<^verbatim>\<open>double\<close> stands for; the arithmetic the
  source does on it rounds as IEEE 754 binary64 does. Infinities and NaN are not
  modelled. The return codes
  of \<^verbatim>\<open>epoll_ctl\<close>, \<^verbatim>\<open>pthread_create\<close>, \<^verbatim>\<open>pthread_join\<close>, \<^verbatim>\<open>eventfd_write\<close> and
  \<^verbatim>\<open>eventfd_read\<close> are ignored by the source and so have no place in the model.
  The \<^verbatim>\<open>DLOG_IF\<close> warnings of \<^verbatim>\<open>stop\<close> (debug builds only) are left out.
\<close>

subsection \<open>Data\<close>

type_synonym WallTime = real
type_synonym pthread_t = nat

text \<open>A \<^verbatim>\<open>std::tr1::function\<close> object is known by a number only.\<close>

type_synonym callback = nat

text \<open>\<^verbatim>\<open>struct Task { WallTime when; function<void()> f; }\<close>\<close>

record Task =
  t_when :: WallTime
  t_f :: callback

text \<open>
  The start routines that the source hands to \<^verbatim>\<open>pthread_create\<close>: there is one, the
  static member function \<^verbatim>\<open>trampoline\<close>, always with \<^verbatim>\<open>this\<close> as its argument.
\<close>

datatype start_routine = Trampoline

datatype effect =
    MutexLock              \<comment> \<open>\<^verbatim>\<open>pthread_mutex_lock(&_mutex)\<close>\<close>
  | MutexUnlock            \<comment> \<open>\<^verbatim>\<open>pthread_mutex_unlock(&_mutex)\<close>\<close>
  | EventfdWrite           \<comment> \<open>\<^verbatim>\<open>eventfd_write(_event_fd, 1)\<close>\<close>
  | EventfdRead            \<comment> \<open>\<^verbatim>\<open>eventfd_read(_event_fd, &val)\<close>\<close>
  | EpollCtlAdd int int    \<comment> \<open>\<^verbatim>\<open>epoll_ctl(_epoll_fd, EPOLL_CTL_ADD, fd, &ev)\<close>, \<^verbatim>\<open>ev.events = flags\<close>\<close>
  | EpollCtlDel int int    \<comment> \<open>\<^verbatim>\<open>epoll_ctl(_epoll_fd, EPOLL_CTL_DEL, fd, &ev)\<close>, \<^verbatim>\<open>ev.events = flags\<close>\<close>
  | EpollWait int          \<comment> \<open>\<^verbatim>\<open>epoll_wait(_epoll_fd, events, kMaxEvents, timeout)\<close>\<close>
  | PthreadCreate pthread_t start_routine
      \<comment> \<open>\<^verbatim>\<open>pthread_create(&thread, NULL, trampoline, this)\<close>: the new thread, its routine\<close>
  | PthreadJoin pthread_t    \<comment> \<open>\<^verbatim>\<open>pthread_join(*i, NULL)\<close>\<close>
  | CallFd callback int    \<comment> \<open>\<^verbatim>\<open>f(events[i].events)\<close> of a descriptor callback\<close>
  | CallTask Task          \<comment> \<open>\<^verbatim>\<open>t.f()\<close> of the task \<open>t\<close>\<close>
  | LogError int           \<comment> \<open>\<^verbatim>\<open>LOG(ERROR) << "Epoll error: " << errno\<close>\<close>

text \<open>
  The fields of the object. \<^verbatim>\<open>_thread_set\<close> is a \<^verbatim>\<open>std::set<pthread_t>\<close>, \<^verbatim>\<open>_fds\<close> a
  \<^verbatim>\<open>std::map\<close> from the pair (fd, flags) to the callback, \<^verbatim>\<open>_tasks\<close> a \<^verbatim>\<open>std::vector<Task>\<close>
  kept as a binary heap.
\<close>

record EventManager =
  is_running :: bool
  thread_set :: "pthread_t set"
  fds :: "(int \<times> int) \<rightharpoonup> callback"
  tasks :: "Task list"
  event_fd :: int
  effects :: "effect list"

definition emit :: "effect \<Rightarrow> EventManager \<Rightarrow> EventManager" where
  "emit e s = s\<lparr>effects := effects s @ [e]\<rparr>"

text \<open>
  The constructor: not running, nothing registered, \<open>efd\<close> the descriptor that
  \<^verbatim>\<open>eventfd(0, 0)\<close> returned. The eventfd is added to the epoll set, not to \<^verbatim>\<open>_fds\<close>.
\<close>

definition EventManager_new :: "int \<Rightarrow> EventManager" where
  "EventManager_new efd =
     \<lparr>is_running = False, thread_set = {}, fds = Map.empty, tasks = [],
      event_fd = efd, effects = [EpollCtlAdd efd 1]\<rparr>"

subsection \<open>The heap operations of the standard library\<close>

text \<open>
  Modelled from the spec: \<^verbatim>\<open>EventManager::compareTasks\<close> is declared in
  \<^verbatim>\<open>eventmanager.h\<close>, which is not among the sources. The spec calls the timer queue a
  binary min-heap of (deadline, callback) pairs ordered by deadline; with
  \<^verbatim>\<open>std::push_heap\<close>, whose front is the greatest element under the comparison, that is
  the comparison "a is due later than b".
\<close>

definition compareTasks :: "Task \<Rightarrow> Task \<Rightarrow> bool" where
  "compareTasks a b = (t_when b < t_when a)"

text \<open>
  \<^verbatim>\<open>std::push_heap\<close> and \<^verbatim>\<open>std::pop_heap\<close> are library code (\<^verbatim>\<open><algorithm>\<close>). They are
  written here as libstdc++ implements them: \<^verbatim>\<open>__push_heap\<close> moves a hole from the last
  position up while the parent compares less than the new value; \<^verbatim>\<open>__adjust_heap\<close>
  moves a hole from the root down along the greater children to the bottom and then
  pushes the displaced last value up from there. Indices are natural numbers here and
  signed in the library; \<open>2 \<le> len\<close> keeps \<open>(len - 2) div 2\<close> the library's
  \<^verbatim>\<open>(__len - 2) / 2\<close>. \<^verbatim>\<open>__push_heap\<close> is only ever called with \<^verbatim>\<open>__topIndex\<close> 0.
\<close>

function push_heap_loop :: "('a \<Rightarrow> 'a \<Rightarrow> bool) \<Rightarrow> 'a list \<Rightarrow> nat \<Rightarrow> 'a \<Rightarrow> 'a list" where
  "push_heap_loop cmp xs hole v =
     (if 0 < hole \<and> cmp (xs ! ((hole - 1) div 2)) v
      then push_heap_loop cmp (xs[hole := xs ! ((hole - 1) div 2)]) ((hole - 1) div 2) v
      else xs[hole := v])"
  by pat_completeness auto
termination
  by (relation "measure (\<lambda>(cmp, xs, hole, v). hole)") auto

declare push_heap_loop.simps [simp del]

definition push_heap :: "('a \<Rightarrow> 'a \<Rightarrow> bool) \<Rightarrow> 'a list \<Rightarrow> 'a list" where
  "push_heap cmp xs =
     (if xs = [] then xs else push_heap_loop cmp xs (length xs - 1) (last xs))"

function adjust_heap_loop ::
  "('a \<Rightarrow> 'a \<Rightarrow> bool) \<Rightarrow> 'a list \<Rightarrow> nat \<Rightarrow> nat \<Rightarrow> 'a list \<times> nat" where
  "adjust_heap_loop cmp xs hole len =
     (if hole < (len - 1) div 2
      then (let c = 2 * (hole + 1);
                c' = (if cmp (xs ! c) (xs ! (c - 1)) then c - 1 else c)
            in adjust_heap_loop cmp (xs[hole := xs ! c']) c' len)
      else (xs, hole))"
  by pat_completeness auto
termination
  by (relation "measure (\<lambda>(cmp, xs, hole, len). len - hole)") auto

declare adjust_heap_loop.simps [simp del]

definition adjust_heap :: "('a \<Rightarrow> 'a \<Rightarrow> bool) \<Rightarrow> 'a list \<Rightarrow> nat \<Rightarrow> 'a \<Rightarrow> 'a list" where
  "adjust_heap cmp xs len v =
     (case adjust_heap_loop cmp xs 0 len of
        (ys, hole) \<Rightarrow>
          if even len \<and> 2 \<le> len \<and> hole = (len - 2) div 2
          then push_heap_loop cmp (ys[hole := ys ! (2 * (hole + 1) - 1)]) (2 * (hole + 1) - 1) v
          else push_heap_loop cmp ys hole v)"

definition pop_heap :: "('a \<Rightarrow> 'a \<Rightarrow> bool) \<Rightarrow> 'a list \<Rightarrow> 'a list" where
  "pop_heap cmp xs =
     (if 1 < length xs
      then adjust_heap cmp (xs[length xs - 1 := xs ! 0]) (length xs - 1) (xs ! (length xs - 1))
      else xs)"

text \<open>
  \<^verbatim>\<open>std::is_heap\<close> on the first \<open>n\<close> elements: no parent compares less than its child. For
  \<open>compareTasks\<close>: no parent is due later than its child.
\<close>

definition heap_upto :: "nat \<Rightarrow> Task list \<Rightarrow> bool" where
  "heap_upto n xs =
     (\<forall>i<n. 0 < i \<longrightarrow> \<not> compareTasks (xs ! ((i - 1) div 2)) (xs ! i))"

definition is_heap :: "Task list \<Rightarrow> bool" where
  "is_heap xs = heap_upto (length xs) xs"

text \<open>
  The two loops work on a vector with a hole. \<open>up_inv n ys hole\<close>: the first \<open>n\<close>
  elements of \<open>ys\<close> are heap-ordered except between \<open>hole\<close> and its parent, and the
  children of \<open>hole\<close> are in order with its parent. \<open>down_inv n xs hole\<close>: the same
  with the element at \<open>hole\<close> itself left out of every comparison.
\<close>

definition up_inv :: "nat \<Rightarrow> Task list \<Rightarrow> nat \<Rightarrow> bool" where
  "up_inv n ys hole =
     (hole < n \<and>
      (\<forall>i<n. 0 < i \<and> i \<noteq> hole \<longrightarrow> t_when (ys ! ((i - 1) div 2)) \<le> t_when (ys ! i)) \<and>
      (\<forall>i<n. 0 < hole \<and> 0 < i \<and> (i - 1) div 2 = hole \<longrightarrow>
             t_when (ys ! ((hole - 1) div 2)) \<le> t_when (ys ! i)))"

definition down_inv :: "nat \<Rightarrow> Task list \<Rightarrow> nat \<Rightarrow> bool" where
  "down_inv n xs hole =
     (hole < n \<and>
      (\<forall>i<n. 0 < i \<and> i \<noteq> hole \<and> (i - 1) div 2 \<noteq> hole \<longrightarrow>
             t_when (xs ! ((i - 1) div 2)) \<le> t_when (xs ! i)) \<and>
      (\<forall>i<n. 0 < hole \<and> 0 < i \<and> (i - 1) div 2 = hole \<longrightarrow>
             t_when (xs ! ((hole - 1) div 2)) \<le> t_when (xs ! i)))"

text \<open>The heap operations rearrange the vector in place: its length stays.\<close>

lemma length_push_heap_loop [simp]: "length (push_heap_loop cmp xs hole v) = length xs"
  by (induction cmp xs hole v rule: push_heap_loop.induct)
     (subst push_heap_loop.simps, simp)

lemma length_push_heap [simp]: "length (push_heap cmp xs) = length xs"
  by (simp add: push_heap_def)

lemma length_adjust_heap_loop [simp]:
  "length (fst (adjust_heap_loop cmp xs hole len)) = length xs"
  by (induction cmp xs hole len rule: adjust_heap_loop.induct)
     (subst adjust_heap_loop.simps, simp add: Let_def)

lemma length_adjust_heap [simp]: "length (adjust_heap cmp xs len v) = length xs"
proof -
  obtain ys hole where r: "adjust_heap_loop cmp xs 0 len = (ys, hole)"
    by (cases "adjust_heap_loop cmp xs 0 len")
  have "length ys = length xs"
    using length_adjust_heap_loop [of cmp xs 0 len] r by simp
  then show ?thesis
    by (simp add: adjust_heap_def r)
qed

lemma length_pop_heap [simp]: "length (pop_heap cmp xs) = length xs"
  by (simp add: pop_heap_def)

subsection \<open>Member functions\<close>

text \<open>
  \<^verbatim>\<open>bool EventManager::start(int num_threads)\<close>. \<open>self\<close> is \<^verbatim>\<open>pthread_self()\<close>, and
  \<open>mk i\<close> the identifier that the \<open>i\<close>-th \<^verbatim>\<open>pthread_create\<close> of the call stores in
  \<^verbatim>\<open>thread\<close>. The loop counter never exceeds \<open>num_threads\<close>, so \<^verbatim>\<open>int\<close> is \<open>int\<close>.
\<close>

function start_loop :: "(int \<Rightarrow> pthread_t) \<Rightarrow> int \<Rightarrow> int \<Rightarrow> EventManager \<Rightarrow> EventManager" where
  "start_loop mk i num_threads s =
     (if i < num_threads
      then start_loop mk (i + 1) num_threads
             ((emit (PthreadCreate (mk i) Trampoline) s)\<lparr>thread_set := insert (mk i) (thread_set s)\<rparr>)
      else s)"
  by pat_completeness auto
termination
  by (relation "measure (\<lambda>(mk, i, num_threads, s). nat (num_threads - i))") auto

declare start_loop.simps [simp del]

definition start ::
  "int \<Rightarrow> pthread_t \<Rightarrow> (int \<Rightarrow> pthread_t) \<Rightarrow> EventManager \<Rightarrow> bool \<times> EventManager" where
  "start num_threads self mk s =
     (let s1 = emit MutexLock s in
      if self \<in> thread_set s1 then (False, emit MutexUnlock s1)
      else
        let s2 = s1\<lparr>is_running := True\<rparr>;
            s3 = start_loop mk 0 num_threads s2
        in (True, emit MutexUnlock s3))"

text \<open>
  \<^verbatim>\<open>bool EventManager::stop()\<close>. A \<^verbatim>\<open>std::set\<close> is iterated in ascending order.
\<close>

fun stop_loop :: "pthread_t list \<Rightarrow> EventManager \<Rightarrow> EventManager" where
  "stop_loop [] s = s"
| "stop_loop (i # rest) s =
     stop_loop rest (emit MutexLock (emit (PthreadJoin i) (emit MutexUnlock s)))"

definition stop :: "pthread_t \<Rightarrow> EventManager \<Rightarrow> bool \<times> EventManager" where
  "stop self s =
     (let s1 = emit MutexLock s in
      if self \<in> thread_set s1 then (False, emit MutexUnlock s1)
      else
        let s2 = s1\<lparr>is_running := False\<rparr>;
            s3 = s2\<lparr>fds := Map.empty\<rparr>;
            s4 = s3\<lparr>tasks := []\<rparr>;
            s5 = emit EventfdWrite s4;
            s6 = stop_loop (sorted_list_of_set (thread_set s5)) s5;
            s7 = s6\<lparr>thread_set := {}\<rparr>
        in (True, emit MutexUnlock s7))"

text \<open>\<^verbatim>\<open>void EventManager::enqueue(function<void()> f, WallTime when)\<close>\<close>

definition enqueue :: "callback \<Rightarrow> WallTime \<Rightarrow> EventManager \<Rightarrow> EventManager" where
  "enqueue f when s =
     (let s1 = emit MutexLock s;
          t = \<lparr>t_when = when, t_f = f\<rparr>;
          oldwhen = (if tasks s1 = [] then - 1 else t_when (hd (tasks s1)));
          s2 = s1\<lparr>tasks := tasks s1 @ [t]\<rparr>;
          s3 = s2\<lparr>tasks := push_heap compareTasks (tasks s2)\<rparr>;
          s4 = (if oldwhen \<noteq> t_when (hd (tasks s3)) then emit EventfdWrite s3 else s3)
      in emit MutexUnlock s4)"

text \<open>\<^verbatim>\<open>bool EventManager::watchFd(int fd, int flags, function<void(int)> f)\<close>\<close>

definition watchFd :: "int \<Rightarrow> int \<Rightarrow> callback \<Rightarrow> EventManager \<Rightarrow> bool \<times> EventManager" where
  "watchFd fd flags f s =
     (let s1 = emit MutexLock s; key = (fd, flags) in
      if fds s1 key \<noteq> None then (False, emit MutexUnlock s1)
      else
        let s2 = emit (EpollCtlAdd fd flags) s1;
            s3 = s2\<lparr>fds := (fds s2)(key \<mapsto> f)\<rparr>;
            s4 = emit EventfdWrite s3
        in (True, emit MutexUnlock s4))"

text \<open>\<^verbatim>\<open>bool EventManager::removeFd(int fd, int flags)\<close>\<close>

definition removeFd :: "int \<Rightarrow> int \<Rightarrow> EventManager \<Rightarrow> bool \<times> EventManager" where
  "removeFd fd flags s =
     (let s1 = emit MutexLock s; key = (fd, flags) in
      if fds s1 key = None then (False, emit MutexUnlock s1)
      else
        let s2 = emit (EpollCtlDel fd flags) s1;
            s3 = s2\<lparr>fds := (fds s2)(key := None)\<rparr>
        in (True, emit MutexUnlock s3))"

subsection \<open>The reactor loop\<close>

definition kMaxEvents :: int where
  "kMaxEvents = 32"

definition kEpollDefaultWait :: int where
  "kEpollDefaultWait = 10000"

definition EINTR :: int where
  "EINTR = 4"

text \<open>
  Arithmetic on \<^verbatim>\<open>double\<close>: IEEE 754 binary64, rounding to nearest, ties to even. A
  finite \<^verbatim>\<open>double\<close> is an integer of at most 53 bits times a power of two that is at
  least \<open>2 ^ - 1074\<close>, and the result of \<^verbatim>\<open>-\<close> or \<^verbatim>\<open>*\<close> is the exact result rounded to the
  nearest such number. For \<open>0 < x\<close>, \<open>exponent2 x\<close> is the \<open>e\<close> with
  \<open>2 ^ e \<le> x < 2 ^ (e + 1)\<close>, and \<open>ulp x\<close> the distance between neighbouring doubles
  at \<open>x\<close>. A result too large for a \<^verbatim>\<open>double\<close>, which the machine makes an infinity,
  stays a finite number here; either is outside the range of \<^verbatim>\<open>int\<close>.
\<close>

fun bit_length :: "nat \<Rightarrow> nat" where
  "bit_length n = (if n = 0 then 0 else Suc (bit_length (n div 2)))"

declare bit_length.simps [simp del]

definition exponent2 :: "real \<Rightarrow> int" where
  "exponent2 x =
     (if 1 \<le> x then int (bit_length (nat \<lfloor>x\<rfloor>)) - 1
      else - int (bit_length (nat (\<lceil>1 / x\<rceil> - 1))))"

definition pow2 :: "int \<Rightarrow> real" where
  "pow2 k = (if 0 \<le> k then 2 ^ nat k else 1 / 2 ^ nat (- k))"

definition round_half_even :: "real \<Rightarrow> int" where
  "round_half_even x =
     (if x - of_int \<lfloor>x\<rfloor> < 1 / 2 then \<lfloor>x\<rfloor>
      else if 1 / 2 < x - of_int \<lfloor>x\<rfloor> then \<lfloor>x\<rfloor> + 1
      else if even \<lfloor>x\<rfloor> then \<lfloor>x\<rfloor> else \<lfloor>x\<rfloor> + 1)"

definition ulp :: "real \<Rightarrow> real" where
  "ulp x = pow2 (max (exponent2 \<bar>x\<bar>) (- 1022) - 52)"

definition round_double :: "real \<Rightarrow> real" where
  "round_double x = (if x = 0 then 0 else of_int (round_half_even (x / ulp x)) * ulp x)"

definition double_sub :: "WallTime \<Rightarrow> WallTime \<Rightarrow> WallTime" where
  "double_sub x y = round_double (x - y)"

definition double_mul :: "WallTime \<Rightarrow> WallTime \<Rightarrow> WallTime" where
  "double_mul x y = round_double (x * y)"

text \<open>
  \<^verbatim>\<open>static_cast<int>\<close> of a \<^verbatim>\<open>double\<close> drops the fraction; where the result does not fit
  a 32-bit \<^verbatim>\<open>int\<close> the conversion is undefined in C++, which is \<open>None\<close> here.
\<close>

definition truncate_toward_zero :: "real \<Rightarrow> int" where
  "truncate_toward_zero x = (if 0 \<le> x then \<lfloor>x\<rfloor> else \<lceil>x\<rceil>)"

definition static_cast_int :: "real \<Rightarrow> int option" where
  "static_cast_int x =
     (if - 2147483648 \<le> truncate_toward_zero x \<and> truncate_toward_zero x \<le> 2147483647
      then Some (truncate_toward_zero x) else None)"

text \<open>
  The head of the loop body of \<^verbatim>\<open>thread_main\<close>: the timeout handed to \<^verbatim>\<open>epoll_wait\<close>, with
  \<open>now\<close> the value of \<^verbatim>\<open>currentTime()\<close>. The subtraction and the multiplication
  by 1000 are done in \<^verbatim>\<open>double\<close>, each rounding its result.
\<close>

definition compute_timeout :: "EventManager \<Rightarrow> WallTime \<Rightarrow> int option" where
  "compute_timeout s now =
     (if tasks s \<noteq> []
      then (case static_cast_int (double_mul (double_sub (t_when (hd (tasks s))) now) 1000) of
              None \<Rightarrow> None
            | Some timeout \<Rightarrow> Some (if timeout < 0 then 0 else timeout))
      else Some kEpollDefaultWait)"

text \<open>
  What \<^verbatim>\<open>epoll_wait\<close> returned: a negative value with \<^verbatim>\<open>errno\<close> set, or the number of
  ready events with that many entries (fd, events) of the array filled in.
\<close>

datatype wait_result = WaitError int | WaitEvents "(int \<times> int) list"

text \<open>"Execute triggered fd handlers": the \<^verbatim>\<open>for\<close> loop over the ready events.\<close>

definition dispatch_event :: "int \<times> int \<Rightarrow> EventManager \<Rightarrow> EventManager" where
  "dispatch_event key s =
     (case fds s key of
        Some f \<Rightarrow> emit MutexLock (emit (CallFd f (snd key)) (emit MutexUnlock s))
      | None \<Rightarrow> if fst key = event_fd s then emit EventfdRead s else s)"

fun dispatch :: "(int \<times> int) list \<Rightarrow> EventManager \<Rightarrow> EventManager" where
  "dispatch [] s = s"
| "dispatch (key # rest) s = dispatch rest (dispatch_event key s)"

text \<open>
  "Execute queued events that are due to be run": the inner \<^verbatim>\<open>while\<close> loop. \<open>clock k\<close>
  is the value of the \<open>k\<close>-th call of \<^verbatim>\<open>currentTime()\<close>.
\<close>

function drain :: "(nat \<Rightarrow> WallTime) \<Rightarrow> nat \<Rightarrow> EventManager \<Rightarrow> EventManager" where
  "drain clock k s =
     (if tasks s \<noteq> [] \<and> t_when (hd (tasks s)) \<le> clock k
      then (let t = hd (tasks s);
                s1 = s\<lparr>tasks := pop_heap compareTasks (tasks s)\<rparr>;
                s2 = s1\<lparr>tasks := butlast (tasks s1)\<rparr>
            in drain clock (Suc k) (emit MutexLock (emit (CallTask t) (emit MutexUnlock s2))))
      else s)"
  by pat_completeness auto
termination
  by (relation "measure (\<lambda>(clock, k, s). length (tasks s))") (auto simp: emit_def)

declare drain.simps [simp del]

text \<open>
  One pass through the body of \<^verbatim>\<open>while (_is_running)\<close>, entered with the mutex held.
  \<open>now\<close> is the time read for the timeout, \<open>w\<close> what \<^verbatim>\<open>epoll_wait\<close> returned, \<open>clock\<close>
  the times read by the inner loop. \<open>None\<close>: the conversion of the timeout was
  undefined.
\<close>

definition thread_main_iter ::
  "WallTime \<Rightarrow> wait_result \<Rightarrow> (nat \<Rightarrow> WallTime) \<Rightarrow> EventManager \<Rightarrow> EventManager option" where
  "thread_main_iter now w clock s =
     (case compute_timeout s now of
        None \<Rightarrow> None
      | Some timeout \<Rightarrow>
          let s1 = emit MutexUnlock s;
              s2 = emit (EpollWait timeout) s1;
              s3 = emit MutexLock s2
          in (case w of
                WaitError errno \<Rightarrow>
                  Some (if errno \<noteq> EINTR then emit (LogError errno) s3 else s3)
              | WaitEvents events \<Rightarrow> Some (drain clock 0 (dispatch events s3))))"

text \<open>
  The loop \<^verbatim>\<open>while (_is_running)\<close> over the inputs of its passes, one triple (time read
  for the timeout, result of \<^verbatim>\<open>epoll_wait\<close>, times read by the inner loop) per pass. The
  thread itself never clears \<^verbatim>\<open>_is_running\<close>; \<open>thread_main_loop\<close> gives the state after
  the passes for which inputs are given, or earlier when \<^verbatim>\<open>_is_running\<close> is false.
\<close>

fun thread_main_loop ::
  "(WallTime \<times> wait_result \<times> (nat \<Rightarrow> WallTime)) list \<Rightarrow> EventManager \<Rightarrow> EventManager option" where
  "thread_main_loop [] s = Some s"
| "thread_main_loop ((now, w, clock) # rest) s =
     (if is_running s
      then (case thread_main_iter now w clock s of
              None \<Rightarrow> None
            | Some s' \<Rightarrow> thread_main_loop rest s')
      else Some s)"

text \<open>
  \<^verbatim>\<open>void EventManager::thread_main()\<close>: lock, loop, wake a sibling, unlock. \<open>None\<close> when the
  loop has not ended within the given inputs.
\<close>

definition thread_main ::
  "(WallTime \<times> wait_result \<times> (nat \<Rightarrow> WallTime)) list \<Rightarrow> EventManager \<Rightarrow> EventManager option" where
  "thread_main envs s =
     (case thread_main_loop envs (emit MutexLock s) of
        None \<Rightarrow> None
      | Some s' \<Rightarrow>
          if is_running s' then None
          else Some (emit MutexUnlock (emit EventfdWrite s')))"

text \<open>
  \<^verbatim>\<open>void* EventManager::trampoline(void *arg)\<close>, the start routine of every thread that
  \<^verbatim>\<open>start\<close> creates: it runs \<^verbatim>\<open>thread_main\<close> of the object and returns \<^verbatim>\<open>NULL\<close>.
\<close>

definition trampoline ::
  "(WallTime \<times> wait_result \<times> (nat \<Rightarrow> WallTime)) list \<Rightarrow> EventManager \<Rightarrow> EventManager option" where
  "trampoline envs em = thread_main envs em"

text \<open>What a thread created with a start routine executes, on the object it was given.\<close>

fun run_start_routine ::
  "start_routine \<Rightarrow> (WallTime \<times> wait_result \<times> (nat \<Rightarrow> WallTime)) list \<Rightarrow> EventManager
     \<Rightarrow> EventManager option" where
  "run_start_routine Trampoline envs em = trampoline envs em"

subsection \<open>Observing a call\<close>

text \<open>
  \<open>new_effects s s'\<close> is what a call that took the object from \<open>s\<close> to \<open>s'\<close> did to the
  outside world; \<open>fired es\<close> lists the tasks whose callbacks \<open>es\<close> runs, in order.
\<close>

definition new_effects :: "EventManager \<Rightarrow> EventManager \<Rightarrow> effect list" where
  "new_effects s s' = drop (length (effects s)) (effects s')"

fun fired :: "effect list \<Rightarrow> Task list" where
  "fired [] = []"
| "fired (CallTask t # es) = t # fired es"
| "fired (e # es) = fired es"

text \<open>
  A sequence of \<^verbatim>\<open>enqueue\<close> calls, each a pair (callback, deadline), and the task each
  call builds.
\<close>

definition task_of :: "callback \<times> WallTime \<Rightarrow> Task" where
  "task_of c = \<lparr>t_when = snd c, t_f = fst c\<rparr>"

definition schedule_all :: "(callback \<times> WallTime) list \<Rightarrow> EventManager \<Rightarrow> EventManager" where
  "schedule_all calls s = fold (\<lambda>(f, when). enqueue f when) calls s"

text \<open>
  A sequence of calls of the public member functions, by any threads. \<open>spawns\<close> holds of
  a \<^verbatim>\<open>start\<close> with a positive thread count; \<open>runs_code\<close> of the effects that run code
  outside the member function itself: a callback, or a new thread.
\<close>

datatype api_call =
    Start int pthread_t "int \<Rightarrow> pthread_t"
  | Stop pthread_t
  | Enqueue callback WallTime
  | WatchFd int int callback
  | RemoveFd int int

fun api_step :: "api_call \<Rightarrow> EventManager \<Rightarrow> EventManager" where
  "api_step (Start num_threads self mk) s = snd (start num_threads self mk s)"
| "api_step (Stop self) s = snd (stop self s)"
| "api_step (Enqueue f when) s = enqueue f when s"
| "api_step (WatchFd fd flags f) s = snd (watchFd fd flags f s)"
| "api_step (RemoveFd fd flags) s = snd (removeFd fd flags s)"

definition run_api :: "api_call list \<Rightarrow> EventManager \<Rightarrow> EventManager" where
  "run_api calls s = fold api_step calls s"

fun spawns :: "api_call \<Rightarrow> bool" where
  "spawns (Start num_threads self mk) = (0 < num_threads)"
| "spawns c = False"

fun runs_code :: "effect \<Rightarrow> bool" where
  "runs_code (CallFd f m) = True"
| "runs_code (CallTask t) = True"
| "runs_code (PthreadCreate i r) = True"
| "runs_code e = False"

section \<open>The heap operations keep the heap\<close>

text \<open>
  \<^verbatim>\<open>push_heap\<close> and \<^verbatim>\<open>pop_heap\<close> permute the vector; \<^verbatim>\<open>push_heap\<close> makes a heap of a
  heap with one element appended, \<^verbatim>\<open>pop_heap\<close> moves the front of a heap to the back and
  leaves a heap before it. The front of a heap is due no later than any other element.
\<close>

lemma mset_move_hole:
  assumes "h < length xs" "p < length xs"
  shows "mset (xs[h := xs ! p, p := v]) = mset (xs[h := v])"
proof (cases "h = p")
  case True
  then show ?thesis by simp
next
  case False
  then show ?thesis using assms
    by (simp add: mset_update nth_list_update)
qed

lemma push_heap_loop_step:
  "0 < hole \<Longrightarrow> cmp (xs ! ((hole - 1) div 2)) v \<Longrightarrow>
   push_heap_loop cmp xs hole v =
   push_heap_loop cmp (xs[hole := xs ! ((hole - 1) div 2)]) ((hole - 1) div 2) v"
  by (subst push_heap_loop.simps) simp

lemma push_heap_loop_stop:
  "\<not> (0 < hole \<and> cmp (xs ! ((hole - 1) div 2)) v) \<Longrightarrow>
   push_heap_loop cmp xs hole v = xs[hole := v]"
  by (subst push_heap_loop.simps) auto

lemma mset_push_heap_loop:
  "hole < length xs \<Longrightarrow> mset (push_heap_loop cmp xs hole v) = mset (xs[hole := v])"
proof (induction cmp xs hole v rule: push_heap_loop.induct)
  case (1 cmp xs hole v)
  show ?case
  proof (cases "0 < hole \<and> cmp (xs ! ((hole - 1) div 2)) v")
    case True
    let ?p = "(hole - 1) div 2"
    have p: "?p < length xs" using "1.prems" by simp
    have "mset (push_heap_loop cmp xs hole v) = mset (push_heap_loop cmp (xs[hole := xs ! ?p]) ?p v)"
      using True by (simp add: push_heap_loop_step)
    also have "\<dots> = mset (xs[hole := xs ! ?p, ?p := v])"
      using "1.IH" [OF True] p by simp
    also have "\<dots> = mset (xs[hole := v])"
      using mset_move_hole [OF "1.prems" p] .
    finally show ?thesis .
  next
    case False
    then show ?thesis using push_heap_loop_stop [of hole cmp xs v] by simp
  qed
qed

lemma mset_push_heap: "mset (push_heap cmp xs) = mset xs"
proof (cases "xs = []")
  case True
  then show ?thesis by (simp add: push_heap_def)
next
  case False
  then have "xs[length xs - 1 := last xs] = xs"
    by (simp add: last_conv_nth)
  with False show ?thesis
    by (simp add: push_heap_def mset_push_heap_loop)
qed

lemma nth_push_heap_loop_above:
  "hole < k \<Longrightarrow> push_heap_loop cmp xs hole v ! k = xs ! k"
proof (induction cmp xs hole v rule: push_heap_loop.induct)
  case (1 cmp xs hole v)
  show ?case
  proof (cases "0 < hole \<and> cmp (xs ! ((hole - 1) div 2)) v")
    case True
    have "(hole - 1) div 2 < k" using "1.prems" by simp
    from "1.IH" [OF True this] True "1.prems" show ?thesis
      by (simp add: push_heap_loop_step)
  next
    case False
    then show ?thesis using "1.prems" by (simp add: push_heap_loop_stop)
  qed
qed

lemma up_inv_step:
  assumes inv: "up_inv n (xs[hole := v]) hole" and n: "n \<le> length xs"
    and pos: "0 < hole" and lt: "t_when v < t_when (xs ! ((hole - 1) div 2))"
  shows "up_inv n (xs[hole := xs ! ((hole - 1) div 2), (hole - 1) div 2 := v]) ((hole - 1) div 2)"
proof -
  define p where "p = (hole - 1) div 2"
  define par where "par = (\<lambda>i::nat. (i - 1) div 2)"
  define zs where "zs = xs[hole := xs ! p, p := v]"
  have hn: "hole < n" using inv by (simp add: up_inv_def)
  have ph: "p < hole" using pos by (simp add: p_def)
  have par_lt: "par i < i" if "0 < i" for i using that by (simp add: par_def)
  have par_hole: "par hole = p" by (simp add: par_def p_def)
  have zs_hole: "zs ! hole = xs ! p" using ph hn n by (simp add: zs_def)
  have zs_p: "zs ! p = v" using ph hn n by (simp add: zs_def)
  have zs_other: "zs ! j = xs ! j" if "j \<noteq> hole" "j \<noteq> p" for j
    using that by (simp add: zs_def)
  have ys_other: "xs[hole := v] ! j = xs ! j" if "j \<noteq> hole" for j
    using that by simp
  have ys_hole: "xs[hole := v] ! hole = v" using hn n by simp
  have A0: "t_when (xs[hole := v] ! par i) \<le> t_when (xs[hole := v] ! i)"
    if "i < n" "0 < i" "i \<noteq> hole" for i
    using inv that unfolding up_inv_def par_def by blast
  have B0: "t_when (xs[hole := v] ! par hole) \<le> t_when (xs[hole := v] ! i)"
    if "i < n" "0 < i" "par i = hole" for i
    using inv that pos unfolding up_inv_def par_def by blast
  have A1: "t_when (xs ! par i) \<le> t_when (xs ! i)"
    if "i < n" "0 < i" "i \<noteq> hole" "par i \<noteq> hole" for i
    using A0 [OF that(1,2,3)] ys_other [OF that(3)] ys_other [OF that(4)] by simp
  have B1: "t_when (xs ! p) \<le> t_when (xs ! i)"
    if "i < n" "0 < i" "par i = hole" for i
  proof -
    have "i \<noteq> hole" using par_lt [OF that(2)] that(3) by simp
    moreover have "p \<noteq> hole" using ph by simp
    ultimately show ?thesis
      using B0 [OF that] ys_other [of i] ys_other [of p] par_hole by simp
  qed
  have C: "t_when (zs ! par i) \<le> t_when (zs ! i)" if "i < n" "0 < i" "i \<noteq> p" for i
  proof (cases "i = hole")
    case True
    then show ?thesis using lt zs_hole zs_p par_hole by (simp add: p_def)
  next
    case ih: False
    show ?thesis
    proof (cases "par i = p")
      case True
      have "par i \<noteq> hole" using True ph by simp
      from A1 [OF that(1,2) ih this] have "t_when (xs ! p) \<le> t_when (xs ! i)"
        using True by simp
      moreover have "t_when (zs ! par i) = t_when v" using True zs_p by simp
      moreover have "zs ! i = xs ! i" using zs_other [OF ih that(3)] .
      ultimately show ?thesis using lt by (simp add: p_def)
    next
      case np: False
      show ?thesis
      proof (cases "par i = hole")
        case True
        have "t_when (xs ! p) \<le> t_when (xs ! i)" using B1 [OF that(1,2) True] .
        moreover have "zs ! par i = xs ! p" using True zs_hole by simp
        moreover have "zs ! i = xs ! i" using zs_other [OF ih that(3)] .
        ultimately show ?thesis by simp
      next
        case False
        have "t_when (xs ! par i) \<le> t_when (xs ! i)" using A1 [OF that(1,2) ih False] .
        moreover have "zs ! par i = xs ! par i" using zs_other [OF False np] .
        moreover have "zs ! i = xs ! i" using zs_other [OF ih that(3)] .
        ultimately show ?thesis by simp
      qed
    qed
  qed
  have D: "t_when (zs ! par p) \<le> t_when (zs ! i)"
    if "i < n" "0 < p" "0 < i" "par i = p" for i
  proof -
    have pp: "par p < p" using par_lt [OF that(2)] .
    have pp_hole: "par p \<noteq> hole" and pp_p: "par p \<noteq> p" using pp ph by simp_all
    have pn: "p < n" using ph hn by simp
    have p_hole: "p \<noteq> hole" using ph by simp
    have "t_when (xs ! par p) \<le> t_when (xs ! p)"
      using A1 [OF pn that(2) p_hole pp_hole] .
    then have p1: "t_when (zs ! par p) \<le> t_when (xs ! p)"
      using zs_other [OF pp_hole pp_p] by simp
    show ?thesis
    proof (cases "i = hole")
      case True
      then show ?thesis using p1 zs_hole by simp
    next
      case False
      have ip: "i \<noteq> p" using par_lt [OF that(3)] that(4) by simp
      have "par i \<noteq> hole" using that(4) p_hole by simp
      from A1 [OF that(1,3) False this] have "t_when (xs ! p) \<le> t_when (xs ! i)"
        using that(4) by simp
      with p1 show ?thesis using zs_other [OF False ip] by simp
    qed
  qed
  have "up_inv n zs p"
    unfolding up_inv_def
  proof (intro conjI allI impI)
    show "p < n" using hn ph by simp
  next
    fix i assume "i < n" "0 < i \<and> i \<noteq> p"
    then show "t_when (zs ! ((i - 1) div 2)) \<le> t_when (zs ! i)"
      using C [of i] by (simp add: par_def)
  next
    fix i assume "i < n" "0 < p \<and> 0 < i \<and> (i - 1) div 2 = p"
    then show "t_when (zs ! ((p - 1) div 2)) \<le> t_when (zs ! i)"
      using D [of i] by (simp add: par_def)
  qed
  then show ?thesis by (simp add: zs_def p_def)
qed

lemma heap_push_heap_loop:
  "up_inv n (xs[hole := v]) hole \<Longrightarrow> n \<le> length xs \<Longrightarrow>
   heap_upto n (push_heap_loop compareTasks xs hole v)"
proof (induction "compareTasks" xs hole v rule: push_heap_loop.induct)
  case (1 xs hole v)
  let ?p = "(hole - 1) div 2"
  show ?case
  proof (cases "0 < hole \<and> compareTasks (xs ! ?p) v")
    case True
    then have "up_inv n (xs[hole := xs ! ?p, ?p := v]) ?p"
      using up_inv_step [OF "1.prems"] by (simp add: compareTasks_def)
    from "1.hyps" [OF True this] "1.prems"(2) True show ?thesis
      by (simp add: push_heap_loop_step)
  next
    case False
    have hn: "hole < n" using "1.prems" by (simp add: up_inv_def)
    have "\<not> compareTasks (xs[hole := v] ! ((i - 1) div 2)) (xs[hole := v] ! i)"
      if "i < n" "0 < i" for i
    proof (cases "i = hole")
      case True
      then show ?thesis using False that hn "1.prems"(2)
        by (auto simp: compareTasks_def nth_list_update)
    next
      case False
      then show ?thesis using "1.prems"(1) that
        by (simp add: up_inv_def compareTasks_def not_less)
    qed
    then show ?thesis using False
      by (simp add: push_heap_loop_stop heap_upto_def)
  qed
qed

lemma is_heap_push_heap:
  assumes "is_heap xs"
  shows "is_heap (push_heap compareTasks (xs @ [t]))"
proof -
  let ?ys = "xs @ [t]"
  have ys: "?ys[length ?ys - 1 := t] = ?ys"
    by simp
  have A: "t_when (?ys ! ((i - 1) div 2)) \<le> t_when (?ys ! i)"
    if "i < length ?ys" "0 < i" "i \<noteq> length ?ys - 1" for i
  proof -
    have "i < length xs" using that by simp
    moreover have "(i - 1) div 2 < length xs" using that by simp
    ultimately show ?thesis using assms that(2)
      by (simp add: is_heap_def heap_upto_def compareTasks_def nth_append not_less)
  qed
  have B: "(i - 1) div 2 \<noteq> length ?ys - 1" if "i < length ?ys" "0 < i" for i
    using that by simp
  have "up_inv (length ?ys) ?ys (length ?ys - 1)"
    unfolding up_inv_def
  proof (intro conjI allI impI)
    show "length ?ys - 1 < length ?ys" by simp
  next
    fix i assume "i < length ?ys" "0 < i \<and> i \<noteq> length ?ys - 1"
    then show "t_when (?ys ! ((i - 1) div 2)) \<le> t_when (?ys ! i)" using A by blast
  next
    fix i assume "i < length ?ys" "0 < length ?ys - 1 \<and> 0 < i \<and> (i - 1) div 2 = length ?ys - 1"
    then show "t_when (?ys ! ((length ?ys - 1 - 1) div 2)) \<le> t_when (?ys ! i)" using B by blast
  qed
  then have "up_inv (length ?ys) (?ys[length ?ys - 1 := t]) (length ?ys - 1)"
    by (simp only: ys)
  from heap_push_heap_loop [OF this] show ?thesis
    by (simp add: push_heap_def is_heap_def)
qed


lemma heap_upto_root_min:
  "heap_upto n xs \<Longrightarrow> i < n \<Longrightarrow> t_when (xs ! 0) \<le> t_when (xs ! i)"
proof (induction i rule: less_induct)
  case (less i)
  show ?case
  proof (cases "i = 0")
    case True
    then show ?thesis by simp
  next
    case False
    then have "(i - 1) div 2 < i" by simp
    moreover from this less.prems have "(i - 1) div 2 < n" by simp
    ultimately have "t_when (xs ! 0) \<le> t_when (xs ! ((i - 1) div 2))"
      using less.IH less.prems(1) by blast
    moreover have "t_when (xs ! ((i - 1) div 2)) \<le> t_when (xs ! i)"
      using less.prems False by (simp add: heap_upto_def compareTasks_def not_less)
    ultimately show ?thesis by simp
  qed
qed

lemma is_heap_hd_min:
  assumes "is_heap xs" "x \<in> set xs"
  shows "t_when (hd xs) \<le> t_when x"
proof -
  from assms(2) obtain i where i: "i < length xs" "xs ! i = x"
    by (auto simp: in_set_conv_nth)
  then have "xs \<noteq> []" by auto
  then have "hd xs = xs ! 0" by (simp add: hd_conv_nth)
  with heap_upto_root_min [of "length xs" xs i] assms(1) i show ?thesis
    by (simp add: is_heap_def)
qed

lemma down_inv_step:
  assumes inv: "down_inv n xs hole" and n: "n \<le> length xs"
    and c: "c < n" "0 < c" "(c - 1) div 2 = hole"
    and least: "\<And>i. i < n \<Longrightarrow> 0 < i \<Longrightarrow> (i - 1) div 2 = hole \<Longrightarrow> t_when (xs ! c) \<le> t_when (xs ! i)"
  shows "down_inv n (xs[hole := xs ! c]) c"
proof -
  define par where "par = (\<lambda>i::nat. (i - 1) div 2)"
  define zs where "zs = xs[hole := xs ! c]"
  have hn: "hole < n" using inv by (simp add: down_inv_def)
  have par_lt: "par i < i" if "0 < i" for i using that by (simp add: par_def)
  have par_c: "par c = hole" using c(3) by (simp add: par_def)
  have hc: "hole < c" using par_lt [OF c(2)] par_c by simp
  have zs_hole: "zs ! hole = xs ! c" using hn n by (simp add: zs_def)
  have zs_other: "zs ! j = xs ! j" if "j \<noteq> hole" for j
    using that by (simp add: zs_def)
  have A: "t_when (xs ! par i) \<le> t_when (xs ! i)"
    if "i < n" "0 < i" "i \<noteq> hole" "par i \<noteq> hole" for i
    using inv that unfolding down_inv_def par_def by blast
  have B: "t_when (xs ! par hole) \<le> t_when (xs ! i)"
    if "i < n" "0 < hole" "0 < i" "par i = hole" for i
    using inv that unfolding down_inv_def par_def by blast
  have L: "t_when (xs ! c) \<le> t_when (xs ! i)" if "i < n" "0 < i" "par i = hole" for i
    using least that by (simp add: par_def)
  have C: "t_when (zs ! par i) \<le> t_when (zs ! i)"
    if "i < n" "0 < i" "i \<noteq> c" "par i \<noteq> c" for i
  proof (cases "i = hole")
    case True
    then have "0 < hole" using that(2) by simp
    then have ph: "par hole \<noteq> hole" using par_lt [of hole] by simp
    have "t_when (xs ! par hole) \<le> t_when (xs ! c)"
      using B [OF c(1) \<open>0 < hole\<close> c(2) par_c] .
    then show ?thesis using True zs_hole zs_other [OF ph] by simp
  next
    case ih: False
    show ?thesis
    proof (cases "par i = hole")
      case True
      then show ?thesis using L [OF that(1,2) True] zs_hole zs_other [OF ih] by simp
    next
      case False
      then show ?thesis using A [OF that(1,2) ih False] zs_other [OF ih] zs_other [OF False]
        by simp
    qed
  qed
  have D: "t_when (zs ! par c) \<le> t_when (zs ! i)"
    if "i < n" "0 < i" "par i = c" for i
  proof -
    have ci: "c < i" using par_lt [OF that(2)] that(3) by simp
    then have ih: "i \<noteq> hole" using hc by simp
    have "par i \<noteq> hole" using that(3) hc by simp
    from A [OF that(1,2) ih this] have "t_when (xs ! c) \<le> t_when (xs ! i)"
      using that(3) by simp
    then show ?thesis using par_c zs_hole zs_other [OF ih] by simp
  qed
  have "down_inv n zs c"
    unfolding down_inv_def
  proof (intro conjI allI impI)
    show "c < n" using c(1) .
  next
    fix i assume "i < n" "0 < i \<and> i \<noteq> c \<and> (i - 1) div 2 \<noteq> c"
    then show "t_when (zs ! ((i - 1) div 2)) \<le> t_when (zs ! i)"
      using C [of i] by (simp add: par_def)
  next
    fix i assume "i < n" "0 < c \<and> 0 < i \<and> (i - 1) div 2 = c"
    then show "t_when (zs ! ((c - 1) div 2)) \<le> t_when (zs ! i)"
      using D [of i] by (simp add: par_def)
  qed
  then show ?thesis by (simp add: zs_def)
qed

lemma down_inv_leaf:
  assumes inv: "down_inv n xs hole" and n: "n \<le> length xs"
    and leaf: "n \<le> 2 * hole + 1"
  shows "up_inv n (xs[hole := v]) hole"
proof -
  have hn: "hole < n" using inv by (simp add: down_inv_def)
  have np: "(i - 1) div 2 \<noteq> hole" if "i < n" "0 < i" for i
    using that leaf by auto
  show ?thesis
    unfolding up_inv_def
  proof (intro conjI allI impI)
    show "hole < n" using hn .
  next
    fix i assume i: "i < n" "0 < i \<and> i \<noteq> hole"
    then have "t_when (xs ! ((i - 1) div 2)) \<le> t_when (xs ! i)"
      using inv np [of i] unfolding down_inv_def by blast
    then show "t_when (xs[hole := v] ! ((i - 1) div 2)) \<le> t_when (xs[hole := v] ! i)"
      using i np [of i] by simp
  next
    fix i assume "i < n" "0 < hole \<and> 0 < i \<and> (i - 1) div 2 = hole"
    then show "t_when (xs[hole := v] ! ((hole - 1) div 2)) \<le> t_when (xs[hole := v] ! i)"
      using np [of i] by simp
  qed
qed


lemma adjust_heap_loop_step:
  "hole < (len - 1) div 2 \<Longrightarrow>
   adjust_heap_loop cmp xs hole len =
   adjust_heap_loop cmp
     (xs[hole := xs ! (if cmp (xs ! (2 * (hole + 1))) (xs ! (2 * (hole + 1) - 1))
                       then 2 * (hole + 1) - 1 else 2 * (hole + 1))])
     (if cmp (xs ! (2 * (hole + 1))) (xs ! (2 * (hole + 1) - 1))
      then 2 * (hole + 1) - 1 else 2 * (hole + 1)) len"
  by (subst adjust_heap_loop.simps) (simp add: Let_def)

lemma adjust_heap_loop_stop:
  "\<not> hole < (len - 1) div 2 \<Longrightarrow> adjust_heap_loop cmp xs hole len = (xs, hole)"
  by (subst adjust_heap_loop.simps) simp

lemma adjust_heap_loop_mset:
  "hole < len \<Longrightarrow> len \<le> length xs \<Longrightarrow> adjust_heap_loop cmp xs hole len = (ys, h) \<Longrightarrow>
   mset (ys[h := v]) = mset (xs[hole := v]) \<and> h < len \<and> (\<forall>k\<ge>len. ys ! k = xs ! k)"
proof (induction cmp xs hole len arbitrary: ys h rule: adjust_heap_loop.induct)
  case (1 cmp xs hole len)
  show ?case
  proof (cases "hole < (len - 1) div 2")
    case True
    define c where "c = (if cmp (xs ! (2 * (hole + 1))) (xs ! (2 * (hole + 1) - 1))
                         then 2 * (hole + 1) - 1 else 2 * (hole + 1))"
    have cl: "c < len" and hc: "hole < c" using True by (auto simp: c_def)
    have run: "adjust_heap_loop cmp (xs[hole := xs ! c]) c len = (ys, h)"
      using "1.prems"(3) adjust_heap_loop_step [OF True, of cmp xs] by (simp add: c_def)
    have IH: "mset (ys[h := v]) = mset (xs[hole := xs ! c, c := v]) \<and> h < len \<and>
              (\<forall>k\<ge>len. ys ! k = xs[hole := xs ! c] ! k)"
      using "1.IH" [OF True refl refl, folded c_def, OF cl _ run] "1.prems"(2) by simp
    have "mset (xs[hole := xs ! c, c := v]) = mset (xs[hole := v])"
      using mset_move_hole [of hole xs c v] "1.prems"(1,2) cl by simp
    moreover have "xs[hole := xs ! c] ! k = xs ! k" if "len \<le> k" for k
      using that "1.prems"(1) by simp
    ultimately show ?thesis using IH by simp
  next
    case False
    then show ?thesis using "1.prems" by (simp add: adjust_heap_loop_stop)
  qed
qed

lemma adjust_heap_loop_inv:
  "down_inv len xs hole \<Longrightarrow> len \<le> length xs \<Longrightarrow>
   adjust_heap_loop compareTasks xs hole len = (ys, h) \<Longrightarrow>
   down_inv len ys h \<and> \<not> h < (len - 1) div 2"
proof (induction "compareTasks" xs hole len arbitrary: ys h rule: adjust_heap_loop.induct)
  case (1 xs hole len)
  show ?case
  proof (cases "hole < (len - 1) div 2")
    case True
    define r where "r = 2 * (hole + 1)"
    define c where "c = (if compareTasks (xs ! r) (xs ! (r - 1)) then r - 1 else r)"
    have rl: "r < len" using True by (simp add: r_def)
    have cl: "c < len" and c0: "0 < c" and pc: "(c - 1) div 2 = hole"
      using rl by (auto simp: c_def r_def)
    have least: "t_when (xs ! c) \<le> t_when (xs ! i)"
      if "i < len" "0 < i" "(i - 1) div 2 = hole" for i
    proof -
      have "i = r - 1 \<or> i = r" using that by (auto simp: r_def)
      then show ?thesis by (auto simp: c_def compareTasks_def)
    qed
    have inv: "down_inv len (xs[hole := xs ! c]) c"
      using down_inv_step [OF "1.prems"(1,2) cl c0 pc least] .
    have run: "adjust_heap_loop compareTasks (xs[hole := xs ! c]) c len = (ys, h)"
      unfolding c_def r_def using "1.prems"(3)
      by (simp only: adjust_heap_loop_step [OF True])
    show ?thesis
      using "1.hyps" [OF True refl refl, folded r_def, folded c_def, OF inv _ run] "1.prems"(2)
      by simp
  next
    case False
    then show ?thesis using "1.prems" by (simp add: adjust_heap_loop_stop)
  qed
qed

lemma adjust_heap_props:
  assumes inv: "down_inv len xs 0" and len: "len < length xs"
  shows "heap_upto len (adjust_heap compareTasks xs len v)"
    and "mset (adjust_heap compareTasks xs len v) = mset (xs[0 := v])"
    and "adjust_heap compareTasks xs len v ! len = xs ! len"
proof -
  obtain ys h where run: "adjust_heap_loop compareTasks xs 0 len = (ys, h)"
    by (cases "adjust_heap_loop compareTasks xs 0 len")
  have l0: "0 < len" using inv by (simp add: down_inv_def)
  have le: "len \<le> length xs" using len by simp
  have lys: "length ys = length xs"
    using length_adjust_heap_loop [of compareTasks xs 0 len] run by simp
  from adjust_heap_loop_inv [OF inv le run]
  have dinv: "down_inv len ys h" and stop: "\<not> h < (len - 1) div 2" by simp_all
  from adjust_heap_loop_mset [OF l0 le run]
  have ms: "\<And>v. mset (ys[h := v]) = mset (xs[0 := v])" and hl: "h < len"
    and keep: "ys ! len = xs ! len" by simp_all
  have all: "heap_upto len (adjust_heap compareTasks xs len v) \<and>
    mset (adjust_heap compareTasks xs len v) = mset (xs[0 := v]) \<and>
    adjust_heap compareTasks xs len v ! len = xs ! len"
  proof (cases "even len \<and> 2 \<le> len \<and> h = (len - 2) div 2")
    case True
    define c where "c = 2 * (h + 1) - 1"
    have res: "adjust_heap compareTasks xs len v = push_heap_loop compareTasks (ys[h := ys ! c]) c v"
      using True run by (simp add: adjust_heap_def c_def)
    have c_eq: "c = len - 1" using True by (auto simp: c_def elim: evenE)
    have cl: "c < len" using l0 c_eq by simp
    have c0: "0 < c" and pc: "(c - 1) div 2 = h" by (simp_all add: c_def)
    have only: "i = c" if "i < len" "0 < i" "(i - 1) div 2 = h" for i
      using that c_eq pc by (auto simp: c_def)
    have "down_inv len (ys[h := ys ! c]) c"
      using down_inv_step [OF dinv _ cl c0 pc] only le lys by auto
    then have up: "up_inv len (ys[h := ys ! c, c := v]) c"
      using down_inv_leaf [of len "ys[h := ys ! c]" c v] le lys c_eq by simp
    have g1: "heap_upto len (adjust_heap compareTasks xs len v)"
      using heap_push_heap_loop [OF up] le lys by (simp add: res)
    have "mset (ys[h := ys ! c, c := v]) = mset (ys[h := v])"
      using mset_move_hole [of h ys c v] hl cl le lys by simp
    then have g2: "mset (adjust_heap compareTasks xs len v) = mset (xs[0 := v])"
      using mset_push_heap_loop [of c "ys[h := ys ! c]" compareTasks v] cl le lys ms
      by (simp add: res)
    have g3: "adjust_heap compareTasks xs len v ! len = xs ! len"
      using hl keep by (simp add: res nth_push_heap_loop_above [OF cl])
    show ?thesis using g1 g2 g3 by simp
  next
    case False
    have res: "adjust_heap compareTasks xs len v = push_heap_loop compareTasks ys h v"
      using False run by (auto simp: adjust_heap_def)
    have leaf: "len \<le> 2 * h + 1"
      using False stop l0 by (cases "even len") (auto elim!: evenE oddE)
    have up: "up_inv len (ys[h := v]) h"
      using down_inv_leaf [OF dinv _ leaf] le lys by simp
    have g1: "heap_upto len (adjust_heap compareTasks xs len v)"
      using heap_push_heap_loop [OF up] le lys by (simp add: res)
    have g2: "mset (adjust_heap compareTasks xs len v) = mset (xs[0 := v])"
      using mset_push_heap_loop [of h ys compareTasks v] hl le lys ms by (simp add: res)
    have g3: "adjust_heap compareTasks xs len v ! len = xs ! len"
      using keep by (simp add: res nth_push_heap_loop_above [OF hl])
    show ?thesis using g1 g2 g3 by simp
  qed
  show "heap_upto len (adjust_heap compareTasks xs len v)"
    and "mset (adjust_heap compareTasks xs len v) = mset (xs[0 := v])"
    and "adjust_heap compareTasks xs len v ! len = xs ! len"
    using all by simp_all
qed

lemma pop_heap_props:
  assumes heap: "is_heap xs" and ne: "xs \<noteq> []"
  shows "is_heap (butlast (pop_heap compareTasks xs))"
    and "mset (pop_heap compareTasks xs) = mset xs"
    and "last (pop_heap compareTasks xs) = hd xs"
proof -
  have all: "is_heap (butlast (pop_heap compareTasks xs)) \<and>
    mset (pop_heap compareTasks xs) = mset xs \<and> last (pop_heap compareTasks xs) = hd xs"
  proof (cases "1 < length xs")
    case False
    then have "length xs = 1" using ne by (cases xs) auto
    then obtain x where "xs = [x]" by (cases xs) auto
    then show ?thesis by (simp add: pop_heap_def is_heap_def heap_upto_def)
  next
    case True
    define n where "n = length xs - 1"
    define xs' where "xs' = xs[n := xs ! 0]"
    have n0: "0 < n" and nl: "n < length xs" using True by (simp_all add: n_def)
    have res: "pop_heap compareTasks xs = adjust_heap compareTasks xs' n (xs ! n)"
      using True by (simp add: pop_heap_def n_def xs'_def)
    have same: "xs' ! i = xs ! i" if "i < n" for i using that by (simp add: xs'_def)
    have inv: "down_inv n xs' 0"
      unfolding down_inv_def
    proof (intro conjI allI impI)
      show "0 < n" using n0 .
    next
      fix i assume i: "i < n" "0 < i \<and> i \<noteq> 0 \<and> (i - 1) div 2 \<noteq> 0"
      then have "(i - 1) div 2 < n" by simp
      moreover have "t_when (xs ! ((i - 1) div 2)) \<le> t_when (xs ! i)"
        using heap i nl by (simp add: is_heap_def heap_upto_def compareTasks_def not_less)
      ultimately show "t_when (xs' ! ((i - 1) div 2)) \<le> t_when (xs' ! i)"
        using same i(1) by simp
    next
      fix i assume "i < n" "(0::nat) < 0 \<and> 0 < i \<and> (i - 1) div 2 = 0"
      then show "t_when (xs' ! ((0 - 1) div 2)) \<le> t_when (xs' ! i)" by simp
    qed
    have nl': "n < length xs'" using nl by (simp add: xs'_def)
    note props = adjust_heap_props [OF inv nl', of "xs ! n"]
    have len: "length (pop_heap compareTasks xs) = Suc n" using nl by (simp add: n_def)
    have "heap_upto n (butlast (pop_heap compareTasks xs))"
      using props(1) len by (simp add: heap_upto_def nth_butlast res)
    then have g1: "is_heap (butlast (pop_heap compareTasks xs))"
      using len by (simp add: is_heap_def)
    have "mset (xs'[0 := xs ! n]) = mset (xs[n := xs ! n])"
      using mset_move_hole [of n xs 0 "xs ! n"] nl ne by (simp add: xs'_def)
    then have g2: "mset (pop_heap compareTasks xs) = mset xs"
      using props(2) by (simp add: res)
    have "pop_heap compareTasks xs \<noteq> []"
      using ne by (metis length_pop_heap length_0_conv)
    then have "last (pop_heap compareTasks xs) = pop_heap compareTasks xs ! n"
      by (simp add: last_conv_nth n_def)
    also have "\<dots> = xs' ! n" using props(3) by (simp add: res)
    also have "\<dots> = hd xs" using nl ne by (simp add: xs'_def hd_conv_nth)
    finally have g3: "last (pop_heap compareTasks xs) = hd xs" .
    show ?thesis using g1 g2 g3 by simp
  qed
  show "is_heap (butlast (pop_heap compareTasks xs))"
    and "mset (pop_heap compareTasks xs) = mset xs"
    and "last (pop_heap compareTasks xs) = hd xs"
    using all by simp_all
qed

section \<open>The loops in closed form\<close>

text \<open>What the loops of \<^verbatim>\<open>start\<close> and \<^verbatim>\<open>stop\<close> leave behind.\<close>

lemma start_loop_closed:
  "start_loop mk i n s =
     s\<lparr>thread_set := thread_set s \<union> mk ` {i..<n},
       effects := effects s @ map (\<lambda>j. PthreadCreate (mk j) Trampoline) [i..n - 1]\<rparr>"
proof (induction mk i n s rule: start_loop.induct)
  case (1 mk i n s)
  show ?case
  proof (cases "i < n")
    case True
    have set: "{i..<n} = insert i {i + 1..<n}" using True by auto
    have upto: "[i..n - 1] = i # [i + 1..n - 1]" using True by (simp add: upto_rec1)
    show ?thesis
      using True "1.IH" [OF True]
      by (subst start_loop.simps) (simp add: emit_def set upto)
  next
    case False
    then show ?thesis by (subst start_loop.simps) simp
  qed
qed

lemma stop_loop_closed:
  "stop_loop ts s =
     s\<lparr>effects := effects s @ concat (map (\<lambda>i. [MutexUnlock, PthreadJoin i, MutexLock]) ts)\<rparr>"
  by (induction ts arbitrary: s) (simp_all add: emit_def)

text \<open>
  \<^verbatim>\<open>enqueue\<close>: the effects, the heap, and the deadline at the front afterwards, which is
  the earlier of the old front's and the new task's.
\<close>

lemma effects_enqueue:
  "effects (enqueue f w s) =
     effects s @ [MutexLock] @
       (if (if tasks s = [] then - 1 else t_when (hd (tasks s)))
             \<noteq> t_when (hd (push_heap compareTasks (tasks s @ [\<lparr>t_when = w, t_f = f\<rparr>])))
        then [EventfdWrite] else []) @ [MutexUnlock]"
  by (simp add: enqueue_def Let_def emit_def)

lemma is_heap_enqueue: "is_heap (tasks s) \<Longrightarrow> is_heap (tasks (enqueue f w s))"
  by (simp add: enqueue_def Let_def emit_def is_heap_push_heap)

lemma is_heap_Nil: "is_heap []"
  by (simp add: is_heap_def heap_upto_def)

lemma hd_push_heap_min:
  assumes "is_heap xs"
  shows "t_when (hd (push_heap compareTasks (xs @ [t]))) =
         (if xs = [] then t_when t else min (t_when (hd xs)) (t_when t))"
proof -
  define ys where "ys = push_heap compareTasks (xs @ [t])"
  have heap: "is_heap ys" using is_heap_push_heap [OF assms] by (simp add: ys_def)
  have ms: "mset ys = add_mset t (mset xs)" by (simp add: ys_def mset_push_heap)
  then have set: "set ys = insert t (set xs)" by (metis set_mset_add_mset_insert set_mset_mset)
  then have ne: "ys \<noteq> []" by auto
  then have hd_in: "hd ys \<in> insert t (set xs)" using set by (metis hd_in_set)
  have le: "t_when (hd ys) \<le> t_when u" if "u \<in> insert t (set xs)" for u
    using is_heap_hd_min [OF heap] that set by blast
  have "t_when (hd ys) = (if xs = [] then t_when t else min (t_when (hd xs)) (t_when t))"
  proof (cases "xs = []")
    case True
    then show ?thesis using hd_in by simp
  next
    case False
    then have hx: "hd xs \<in> set xs" by simp
    have lower: "t_when (hd xs) \<le> t_when u" if "u \<in> set xs" for u
      using is_heap_hd_min [OF assms that] .
    have "t_when (hd ys) \<le> min (t_when (hd xs)) (t_when t)"
      using le [of t] le [of "hd xs"] hx by simp
    moreover have "min (t_when (hd xs)) (t_when t) \<le> t_when (hd ys)"
    proof (cases "hd ys = t")
      case True
      then show ?thesis by simp
    next
      case False
      then have "hd ys \<in> set xs" using hd_in by simp
      from lower [OF this] show ?thesis by (simp add: min_le_iff_disj)
    qed
    ultimately have "t_when (hd ys) = min (t_when (hd xs)) (t_when t)"
      by (rule antisym)
    then show ?thesis using False by simp
  qed
  then show ?thesis by (simp add: ys_def)
qed

lemma enqueue_signal:
  assumes "is_heap (tasks s)"
  shows "new_effects s (enqueue f w s) =
     (if (tasks s = [] \<and> w \<noteq> - 1) \<or> (tasks s \<noteq> [] \<and> w < t_when (hd (tasks s)))
      then [MutexLock, EventfdWrite, MutexUnlock] else [MutexLock, MutexUnlock])"
  using hd_push_heap_min [OF assms, of "\<lparr>t_when = w, t_f = f\<rparr>"]
  by (auto simp: new_effects_def effects_enqueue min_def)

lemma fired_append [simp]: "fired (xs @ ys) = fired xs @ fired ys"
  by (induction xs rule: fired.induct) simp_all

lemma fired_calls [simp]:
  "fired (concat (map (\<lambda>t. [MutexUnlock, CallTask t, MutexLock]) ts)) = ts"
  by (induction ts) simp_all

lemma schedule_all_props:
  "is_heap (tasks s) \<Longrightarrow>
   is_heap (tasks (schedule_all calls s)) \<and>
   mset (tasks (schedule_all calls s)) = mset (tasks s) + mset (map task_of calls) \<and>
   fired (effects (schedule_all calls s)) = fired (effects s) \<and>
   length (effects s) \<le> length (effects (schedule_all calls s)) \<and>
   take (length (effects s)) (effects (schedule_all calls s)) = effects s"
proof (induction calls arbitrary: s)
  case Nil
  then show ?case by (simp add: schedule_all_def)
next
  case (Cons c calls)
  obtain f w where c: "c = (f, w)" by (cases c)
  have step: "schedule_all (c # calls) s = schedule_all calls (enqueue f w s)"
    by (simp add: schedule_all_def c)
  have m: "mset (tasks (enqueue f w s)) = add_mset (task_of c) (mset (tasks s))"
    by (simp add: enqueue_def Let_def emit_def mset_push_heap task_of_def c)
  have fe: "fired (effects (enqueue f w s)) = fired (effects s)"
    by (simp add: effects_enqueue)
  have le: "length (effects s) \<le> length (effects (enqueue f w s))"
    and tk: "take (length (effects s)) (effects (enqueue f w s)) = effects s"
    by (simp_all add: effects_enqueue)
  from Cons.IH [OF is_heap_enqueue [OF Cons.prems], of f w]
  show ?case using m fe le tk
    by (auto simp: step) (metis append_eq_conv_conj le take_take min.absorb2 min.commute tk)
qed

lemma schedule_all_effects:
  assumes "is_heap (tasks s0)"
  shows "\<exists>es. effects (schedule_all calls s0) = effects s0 @ es \<and> fired es = []"
proof -
  note sp = schedule_all_props [OF assms, of calls]
  define es where "es = drop (length (effects s0)) (effects (schedule_all calls s0))"
  have e: "effects (schedule_all calls s0) = effects s0 @ es"
    using sp by (metis append_take_drop_id es_def)
  then have "fired (effects s0) @ fired es = fired (effects s0)" using sp by (metis fired_append)
  then show ?thesis using e by auto
qed

text \<open>
  The inner loop of \<^verbatim>\<open>thread_main\<close>: on a heap it runs the callbacks of tasks \<open>ts\<close>, in
  non-decreasing order of deadline, starting with the front; what it leaves is a heap of
  tasks due no earlier than those it ran.
\<close>

lemma drain_step:
  "tasks s \<noteq> [] \<Longrightarrow> t_when (hd (tasks s)) \<le> clock k \<Longrightarrow>
   drain clock k s =
   drain clock (Suc k)
     (s\<lparr>tasks := butlast (pop_heap compareTasks (tasks s)),
        effects := effects s @ [MutexUnlock, CallTask (hd (tasks s)), MutexLock]\<rparr>)"
  by (subst drain.simps) (simp add: Let_def emit_def)

lemma drain_stop:
  "\<not> (tasks s \<noteq> [] \<and> t_when (hd (tasks s)) \<le> clock k) \<Longrightarrow> drain clock k s = s"
  by (subst drain.simps) auto

lemma mset_butlast_pop_heap:
  assumes "is_heap xs" "xs \<noteq> []"
  shows "add_mset (hd xs) (mset (butlast (pop_heap compareTasks xs))) = mset xs"
proof -
  have ne: "pop_heap compareTasks xs \<noteq> []"
    using assms(2) by (metis length_pop_heap length_0_conv)
  have "mset (butlast (pop_heap compareTasks xs) @ [last (pop_heap compareTasks xs)]) = mset xs"
    using ne pop_heap_props(2) [OF assms] by simp
  then show ?thesis using pop_heap_props(3) [OF assms] by simp
qed

lemma drain_closed:
  "is_heap (tasks s) \<Longrightarrow>
   \<exists>ts. drain clock k s =
          s\<lparr>tasks := tasks (drain clock k s),
            effects := effects s @ concat (map (\<lambda>t. [MutexUnlock, CallTask t, MutexLock]) ts)\<rparr> \<and>
        sorted (map t_when ts) \<and>
        mset ts + mset (tasks (drain clock k s)) = mset (tasks s) \<and>
        is_heap (tasks (drain clock k s)) \<and>
        (tasks (drain clock k s) \<noteq> [] \<longrightarrow> clock (k + length ts) < t_when (hd (tasks (drain clock k s)))) \<and>
        (\<forall>t\<in>set ts. \<forall>u\<in>set (tasks (drain clock k s)). t_when t \<le> t_when u) \<and>
        (tasks s \<noteq> [] \<and> t_when (hd (tasks s)) \<le> clock k \<longrightarrow> ts \<noteq> [] \<and> hd ts = hd (tasks s))"
proof (induction clock k s rule: drain.induct)
  case (1 clock k s)
  show ?case
  proof (cases "tasks s \<noteq> [] \<and> t_when (hd (tasks s)) \<le> clock k")
    case False
    have "drain clock k s = s" using drain_stop [of s clock k] False by blast
    then show ?thesis using "1.prems" False
      by (intro exI [of _ "[]"]) auto
  next
    case True
    define t where "t = hd (tasks s)"
    define s' where "s' = s\<lparr>tasks := butlast (pop_heap compareTasks (tasks s)),
        effects := effects s @ [MutexUnlock, CallTask t, MutexLock]\<rparr>"
    have step: "drain clock k s = drain clock (Suc k) s'"
      using drain_step True by (simp add: s'_def t_def)
    have heap': "is_heap (tasks s')"
      using pop_heap_props(1) [OF "1.prems"] True by (simp add: s'_def)
    have ms: "add_mset t (mset (tasks s')) = mset (tasks s)"
      using mset_butlast_pop_heap [OF "1.prems"] True by (simp add: s'_def t_def)
    have s'_eq: "s' = emit MutexLock (emit (CallTask t) (emit MutexUnlock
        (s\<lparr>tasks := pop_heap compareTasks (tasks s)\<rparr>
          \<lparr>tasks := butlast (tasks (s\<lparr>tasks := pop_heap compareTasks (tasks s)\<rparr>))\<rparr>)))"
      by (simp add: s'_def emit_def)
    from "1.IH" [OF True refl refl refl, folded t_def, folded s'_eq, OF heap']
    obtain ts where ts:
      "drain clock (Suc k) s' =
          s'\<lparr>tasks := tasks (drain clock (Suc k) s'),
            effects := effects s' @ concat (map (\<lambda>t. [MutexUnlock, CallTask t, MutexLock]) ts)\<rparr>"
      "sorted (map t_when ts)"
      "mset ts + mset (tasks (drain clock (Suc k) s')) = mset (tasks s')"
      "is_heap (tasks (drain clock (Suc k) s'))"
      "tasks (drain clock (Suc k) s') \<noteq> [] \<longrightarrow>
         clock (Suc k + length ts) < t_when (hd (tasks (drain clock (Suc k) s')))"
      "\<forall>t\<in>set ts. \<forall>u\<in>set (tasks (drain clock (Suc k) s')). t_when t \<le> t_when u"
      by blast
    have "set ts \<subseteq> set (tasks s)"
    proof
      fix u assume "u \<in> set ts"
      then have "u \<in># mset ts + mset (tasks (drain clock (Suc k) s'))" by simp
      then have "u \<in># mset (tasks s')" using ts(3) by simp
      then have "u \<in># mset (tasks s)" using ms by (metis insert_iff set_mset_add_mset_insert)
      then show "u \<in> set (tasks s)" by simp
    qed
    then have le: "\<forall>u\<in>set ts. t_when t \<le> t_when u"
      using is_heap_hd_min [OF "1.prems"] by (auto simp: t_def)
    have a: "drain clock k s =
          s\<lparr>tasks := tasks (drain clock k s),
            effects := effects s @ concat (map (\<lambda>t. [MutexUnlock, CallTask t, MutexLock]) (t # ts))\<rparr>"
      using ts(1) by (simp add: step) (simp add: s'_def)
    have b: "sorted (map t_when (t # ts))" using ts(2) le by simp
    have c: "mset (t # ts) + mset (tasks (drain clock k s)) = mset (tasks s)"
      using ts(3) ms by (simp add: step)
    have d: "is_heap (tasks (drain clock k s))" using ts(4) by (simp add: step)
    have e: "tasks (drain clock k s) \<noteq> [] \<longrightarrow>
       clock (k + length (t # ts)) < t_when (hd (tasks (drain clock k s)))"
      using ts(5) by (simp add: step)
    have "set (tasks (drain clock k s)) \<subseteq> set (tasks s)"
    proof
      fix u assume "u \<in> set (tasks (drain clock k s))"
      then have "u \<in># mset ts + mset (tasks (drain clock (Suc k) s'))" by (simp add: step)
      then have "u \<in># mset (tasks s')" using ts(3) by simp
      then have "u \<in># mset (tasks s)" using ms by (metis insert_iff set_mset_add_mset_insert)
      then show "u \<in> set (tasks s)" by simp
    qed
    then have "\<forall>u\<in>set (tasks (drain clock k s)). t_when t \<le> t_when u"
      using is_heap_hd_min [OF "1.prems"] by (auto simp: t_def)
    then have f: "\<forall>t'\<in>set (t # ts). \<forall>u\<in>set (tasks (drain clock k s)). t_when t' \<le> t_when u"
      using ts(6) by (simp add: step)
    have g: "t # ts \<noteq> [] \<and> hd (t # ts) = hd (tasks s)" by (simp add: t_def)
    show ?thesis
      by (rule exI [of _ "t # ts"]) (use a b c d e f g in blast)
  qed
qed

lemma drain_all_due:
  "is_heap (tasks s) \<Longrightarrow> (\<forall>j. \<forall>t\<in>set (tasks s). t_when t \<le> clock j) \<Longrightarrow>
   tasks (drain clock k s) = []"
proof -
  assume heap: "is_heap (tasks s)" and due: "\<forall>j. \<forall>t\<in>set (tasks s). t_when t \<le> clock j"
  from drain_closed [OF heap, of clock k] obtain ts where
    ts: "mset ts + mset (tasks (drain clock k s)) = mset (tasks s)"
      "tasks (drain clock k s) \<noteq> [] \<longrightarrow> clock (k + length ts) < t_when (hd (tasks (drain clock k s)))"
    by blast
  show ?thesis
  proof (rule ccontr)
    assume ne: "tasks (drain clock k s) \<noteq> []"
    then have "hd (tasks (drain clock k s)) \<in># mset ts + mset (tasks (drain clock k s))"
      by simp
    then have "hd (tasks (drain clock k s)) \<in> set (tasks s)" using ts(1) by simp
    then have "t_when (hd (tasks (drain clock k s))) \<le> clock (k + length ts)" using due by blast
    then show False using ts(2) ne by simp
  qed
qed

lemma effects_drain_prefix: "\<exists>es. effects (drain clock k s) = effects s @ es"
proof (induction clock k s rule: drain.induct)
  case (1 clock k s)
  show ?case
  proof (cases "tasks s \<noteq> [] \<and> t_when (hd (tasks s)) \<le> clock k")
    case True
    from "1.IH" [OF True refl refl refl] True show ?thesis
      by (subst drain.simps) (auto simp: Let_def emit_def)
  next
    case False
    then show ?thesis using drain_stop [of s clock k] by simp
  qed
qed

text \<open>The dispatch loop touches nothing but the effects, and runs no task.\<close>

lemma fds_dispatch_event [simp]: "fds (dispatch_event key s) = fds s"
  by (simp add: dispatch_event_def emit_def split: option.split)

lemma event_fd_dispatch_event [simp]: "event_fd (dispatch_event key s) = event_fd s"
  by (simp add: dispatch_event_def emit_def split: option.split)

lemma tasks_dispatch_event [simp]: "tasks (dispatch_event key s) = tasks s"
  by (simp add: dispatch_event_def emit_def split: option.split)

lemma effects_dispatch:
  "effects (dispatch evs s) =
     effects s @ concat (map (\<lambda>key. drop (length (effects s)) (effects (dispatch_event key s))) evs)
   \<and> fds (dispatch evs s) = fds s \<and> event_fd (dispatch evs s) = event_fd s
   \<and> tasks (dispatch evs s) = tasks s"
proof (induction evs arbitrary: s)
  case Nil
  then show ?case by simp
next
  case (Cons key evs)
  have e: "effects (dispatch_event k s) = effects s @ drop (length (effects s)) (effects (dispatch_event k s))" for k s
    by (simp add: dispatch_event_def emit_def split: option.split)
  have d: "drop (length (effects (dispatch_event key s))) (effects (dispatch_event k (dispatch_event key s)))
         = drop (length (effects s)) (effects (dispatch_event k s))" for k
    by (simp add: dispatch_event_def emit_def split: option.split)
  show ?case
    using Cons.IH [of "dispatch_event key s"] e [of key s] by (simp add: d)
qed

lemma fired_dispatch_event:
  "fired (drop (length (effects s)) (effects (dispatch_event key s))) = []"
  by (simp add: dispatch_event_def emit_def split: option.split)

lemma fired_dispatch: "fired (effects (dispatch evs s)) = fired (effects s)"
proof -
  have "fired (concat (map (\<lambda>key. drop (length (effects s)) (effects (dispatch_event key s))) evs)) = []"
    by (induction evs) (simp_all add: fired_dispatch_event)
  then show ?thesis using effects_dispatch [of evs s] by simp
qed

lemma dispatch_calls:
  "CallFd f m \<in> set (new_effects s (dispatch evs s)) \<longleftrightarrow>
   (\<exists>fd. (fd, m) \<in> set evs \<and> fds s (fd, m) = Some f)"
proof -
  have one: "CallFd f m \<in> set (drop (length (effects s)) (effects (dispatch_event key s))) \<longleftrightarrow>
      snd key = m \<and> fds s key = Some f" for key
    by (auto simp: dispatch_event_def emit_def split: option.split)
  have "new_effects s (dispatch evs s) =
      concat (map (\<lambda>key. drop (length (effects s)) (effects (dispatch_event key s))) evs)"
    using effects_dispatch [of evs s] by (simp add: new_effects_def)
  then show ?thesis using one by force
qed

text \<open>
  Rounding to \<^verbatim>\<open>double\<close>: \<open>exponent2\<close> is the exponent of the binade, and the rounded
  result is within half an \<open>ulp\<close> of the exact one.
\<close>

lemma bit_length_pos: "0 < n \<Longrightarrow> 0 < bit_length n"
  by (subst bit_length.simps) simp

lemma bit_length_bounds:
  "0 < n \<Longrightarrow> 2 ^ (bit_length n - 1) \<le> n \<and> n < 2 ^ bit_length n"
proof (induction n rule: bit_length.induct)
  case (1 n)
  have bl: "bit_length n = Suc (bit_length (n div 2))"
    using "1.prems" by (subst bit_length.simps) simp
  show ?case
  proof (cases "n div 2 = 0")
    case True
    then have "n = 1" using "1.prems" by presburger
    moreover have "bit_length (0::nat) = 0" by (subst bit_length.simps) simp
    ultimately show ?thesis using bl True by simp
  next
    case False
    define b where "b = bit_length (n div 2)"
    have pos: "0 < n div 2" using False by simp
    have ih: "2 ^ (b - 1) \<le> n div 2" "n div 2 < 2 ^ b"
      using "1.IH" pos "1.prems" by (simp_all add: b_def)
    have bpos: "0 < b" using bit_length_pos [OF pos] by (simp add: b_def)
    then have p: "(2::nat) ^ b = 2 * 2 ^ (b - 1)" by (cases b) simp_all
    have lo: "2 ^ b \<le> n" using ih(1) p by presburger
    have hi: "n < 2 * 2 ^ b" using ih(2) by presburger
    show ?thesis using lo hi by (simp add: bl b_def [symmetric])
  qed
qed

lemma pow2_pos [simp]: "0 < pow2 k"
  by (simp add: pow2_def)

lemma pow2_of_nat: "pow2 (int n) = 2 ^ n"
  by (simp add: pow2_def)

lemma pow2_neg_nat: "pow2 (- int n) = 1 / 2 ^ n"
  by (cases "n = 0") (simp_all add: pow2_def)

lemma pow2_powr: "pow2 k = (2::real) powr (of_int k)"
proof (cases "0 \<le> k")
  case True
  then show ?thesis by (simp add: pow2_def powr_realpow [symmetric])
next
  case False
  then have "(2::real) powr (of_int k) = 1 / 2 powr (of_int (- k))"
    by (simp add: powr_minus_divide)
  also have "\<dots> = 1 / 2 ^ nat (- k)"
    using False by (simp add: powr_realpow [symmetric])
  finally show ?thesis using False by (simp add: pow2_def)
qed

lemma pow2_add: "pow2 (a + b) = pow2 a * pow2 b"
  by (simp add: pow2_powr powr_add)

lemma pow2_mono: "a \<le> b \<Longrightarrow> pow2 a \<le> pow2 b"
  by (simp add: pow2_powr)

lemma pow2_less_iff: "pow2 a < pow2 b \<longleftrightarrow> a < b"
  by (simp add: pow2_powr)

lemma exponent2_bounds:
  assumes "0 < x"
  shows "pow2 (exponent2 x) \<le> x \<and> x < pow2 (exponent2 x + 1)"
proof (cases "1 \<le> x")
  case True
  define n where "n = nat \<lfloor>x\<rfloor>"
  have npos: "0 < n" using True by (simp add: n_def)
  from bit_length_bounds [OF npos] have b: "2 ^ (bit_length n - 1) \<le> n" "n < 2 ^ bit_length n"
    by simp_all
  have bp: "0 < bit_length n" using bit_length_pos [OF npos] .
  have e: "exponent2 x = int (bit_length n - 1)"
    using True bp by (simp add: exponent2_def n_def [symmetric] of_nat_diff)
  have e1: "exponent2 x + 1 = int (bit_length n)"
    using e bp by simp
  have nx: "real n \<le> x" "x < real n + 1"
    using True by (simp_all add: n_def)
  have "(2::real) ^ (bit_length n - 1) \<le> real n"
    using b(1) by (metis of_nat_le_iff of_nat_numeral of_nat_power)
  then have lo: "pow2 (exponent2 x) \<le> x" using nx(1) by (simp only: e pow2_of_nat)
  have "real n + 1 \<le> 2 ^ bit_length n"
  proof -
    have "n + 1 \<le> 2 ^ bit_length n" using b(2) by simp
    then have "real (n + 1) \<le> real (2 ^ bit_length n)" by (simp only: of_nat_le_iff)
    then show ?thesis by simp
  qed
  then have hi: "x < pow2 (exponent2 x + 1)" using nx(2) by (simp only: e1 pow2_of_nat)
  show ?thesis using lo hi by simp
next
  case False
  then have x1: "x < 1" by simp
  define c where "c = nat (\<lceil>1 / x\<rceil> - 1)"
  have inv: "1 < 1 / x" using assms x1 by simp
  define z where "z = \<lceil>1 / x\<rceil>"
  have ce: "2 \<le> z" unfolding z_def using inv by linarith
  have cz: "c = nat (z - 1)" by (simp only: c_def z_def)
  have cpos: "0 < c" using ce by (simp add: cz)
  have rc: "real c = of_int z - 1" using ce by (simp add: cz)
  have "of_int z - 1 < 1 / x" "1 / x \<le> of_int z"
    unfolding z_def using ceiling_correct [of "1 / x"] by simp_all
  then have cx: "real c < 1 / x" "1 / x \<le> real c + 1"
    by (simp_all add: rc)
  from bit_length_bounds [OF cpos] have b: "2 ^ (bit_length c - 1) \<le> c" "c < 2 ^ bit_length c"
    by simp_all
  have bp: "0 < bit_length c" using bit_length_pos [OF cpos] .
  have e: "exponent2 x = - int (bit_length c)"
    using False by (simp add: exponent2_def c_def [symmetric])
  have e1: "exponent2 x + 1 = - int (bit_length c - 1)"
    using e bp by (simp add: of_nat_diff)
  have "real c + 1 \<le> 2 ^ bit_length c"
  proof -
    have "c + 1 \<le> 2 ^ bit_length c" using b(2) by simp
    then have "real (c + 1) \<le> real (2 ^ bit_length c)" by (simp only: of_nat_le_iff)
    then show ?thesis by simp
  qed
  then have "1 / x \<le> 2 ^ bit_length c" using cx(2) by linarith
  then have "1 \<le> 2 ^ bit_length c * x" using assms by (simp add: field_simps)
  then have "1 / 2 ^ bit_length c \<le> x" by (simp add: field_simps)
  then have lo: "pow2 (exponent2 x) \<le> x" by (simp only: e pow2_neg_nat)
  have "(2::real) ^ (bit_length c - 1) \<le> real c"
    using b(1) by (metis of_nat_le_iff of_nat_numeral of_nat_power)
  then have "2 ^ (bit_length c - 1) < 1 / x" using cx(1) by linarith
  then have "2 ^ (bit_length c - 1) * x < 1" using assms by (simp add: field_simps)
  then have "x < 1 / 2 ^ (bit_length c - 1)" by (simp add: field_simps)
  then have hi: "x < pow2 (exponent2 x + 1)" by (simp only: e1 pow2_neg_nat)
  show ?thesis using lo hi by simp
qed

lemma exponent2_less:
  assumes "0 < x" "x < pow2 k"
  shows "exponent2 x < k"
proof -
  have "pow2 (exponent2 x) \<le> x" using exponent2_bounds [OF assms(1)] by simp
  then have "pow2 (exponent2 x) < pow2 k" using assms(2) by simp
  then show ?thesis by (simp only: pow2_less_iff)
qed

lemma round_half_even_error: "\<bar>of_int (round_half_even x) - x\<bar> \<le> 1 / 2"
  unfolding round_half_even_def by (auto simp: abs_le_iff)

lemma ulp_pos [simp]: "0 < ulp x"
  by (simp add: ulp_def)

lemma round_double_error: "\<bar>round_double x - x\<bar> \<le> ulp x / 2"
proof (cases "x = 0")
  case True
  then show ?thesis using ulp_pos [of x] by (simp add: round_double_def less_imp_le)
next
  case False
  define u where "u = ulp x"
  have upos: "0 < u" by (simp add: u_def)
  define m where "m = round_half_even (x / u)"
  have "\<bar>of_int m - x / u\<bar> \<le> 1 / 2" using round_half_even_error [of "x / u"] by (simp add: m_def)
  then have "\<bar>of_int m - x / u\<bar> * u \<le> 1 / 2 * u" using upos by (simp only: mult_le_cancel_right_pos)
  moreover have "\<bar>of_int m - x / u\<bar> * u = \<bar>of_int m * u - x\<bar>"
  proof -
    have "\<bar>of_int m - x / u\<bar> * u = \<bar>(of_int m - x / u) * u\<bar>" using upos by (simp add: abs_mult)
    also have "(of_int m - x / u) * u = of_int m * u - x" using upos by (simp add: field_simps)
    finally show ?thesis .
  qed
  ultimately have "\<bar>of_int m * u - x\<bar> \<le> u / 2" by simp
  then show ?thesis using False by (simp add: round_double_def m_def u_def)
qed

lemma ulp_le:
  assumes "x \<noteq> 0" "\<bar>x\<bar> < pow2 k" "- 1021 \<le> k"
  shows "ulp x \<le> pow2 (k - 53)"
proof -
  have "0 < \<bar>x\<bar>" using assms(1) by simp
  from exponent2_less [OF this assms(2)] have "exponent2 \<bar>x\<bar> \<le> k - 1" by simp
  then have "max (exponent2 \<bar>x\<bar>) (- 1022) - 52 \<le> k - 53" using assms(3) by simp
  then show ?thesis unfolding ulp_def by (rule pow2_mono)
qed

lemma round_double_near:
  assumes "\<bar>x\<bar> < pow2 k" "- 1021 \<le> k"
  shows "\<bar>round_double x - x\<bar> \<le> pow2 (k - 54)"
proof (cases "x = 0")
  case True
  then show ?thesis using pow2_pos [of "k - 54"] by (simp add: round_double_def less_imp_le)
next
  case False
  have "\<bar>round_double x - x\<bar> \<le> ulp x / 2" by (rule round_double_error)
  also have "\<dots> \<le> pow2 (k - 53) / 2" using ulp_le [OF False assms] by simp
  also have "\<dots> = pow2 (k - 54)"
  proof -
    have "pow2 (k - 53) = pow2 (k - 54 + 1)" by simp
    also have "\<dots> = pow2 (k - 54) * pow2 1" by (rule pow2_add)
    finally show ?thesis by (simp add: pow2_def)
  qed
  finally show ?thesis .
qed

text \<open>
  The numbers \<open>m * 2 ^ j\<close> with \<open>\<bar>m\<bar> < 2 ^ 53\<close> and \<open>- 1074 \<le> j\<close> are the doubles (up to
  the largest one): rounding leaves each of them as it is, and the result of a rounding
  is one of them.
\<close>

lemma round_half_even_of_int: "round_half_even (of_int k) = k"
  by (simp add: round_half_even_def)

lemma pow2_nonzero [simp]: "pow2 k \<noteq> 0"
  by (simp add: pow2_def)

lemma pow2_abs [simp]: "\<bar>pow2 k\<bar> = pow2 k"
  using pow2_pos [of k] by (simp only: abs_of_pos)

lemma pow2_53: "pow2 53 = 2 ^ 53"
  by (simp add: pow2_def)

lemma pow2_1: "pow2 1 = 2"
  by (simp add: pow2_def)

lemma pow2_diff: "pow2 a / pow2 b = pow2 (a - b)"
proof -
  have "pow2 a = pow2 (a - b + b)" by simp
  also have "\<dots> = pow2 (a - b) * pow2 b" by (rule pow2_add)
  finally show ?thesis using pow2_pos [of b] by (simp add: field_simps)
qed

lemma pow2_nonneg_int: "0 \<le> k \<Longrightarrow> pow2 k = of_int (2 ^ nat k)"
  by (simp add: pow2_def)

lemma round_double_fixes_doubles:
  assumes "\<bar>m\<bar> < 2 ^ 53" "- 1074 \<le> j"
  shows "round_double (of_int m * pow2 j) = of_int m * pow2 j"
proof (cases "m = 0")
  case True
  then show ?thesis by (simp add: round_double_def)
next
  case False
  define x where "x = of_int m * pow2 j"
  have x0: "x \<noteq> 0" using False pow2_pos [of j] by (simp add: x_def)
  define e where "e = exponent2 \<bar>x\<bar>"
  define E where "E = max e (- 1022) - 52"
  have u: "ulp x = pow2 E" by (simp add: ulp_def E_def e_def)
  have ax: "\<bar>x\<bar> = of_int \<bar>m\<bar> * pow2 j"
    using pow2_pos [of j] by (simp add: x_def abs_mult)
  have jE: "E \<le> j"
  proof (rule ccontr)
    assume "\<not> E \<le> j"
    then have lt: "j < E" by simp
    have "E \<noteq> - 1074" using lt assms(2) by simp
    then have Ee: "E = e - 52" by (auto simp: E_def max_def)
    have "real_of_int \<bar>m\<bar> < 2 ^ 53" using assms(1)
      by (metis of_int_less_iff of_int_numeral of_int_power)
    then have "\<bar>x\<bar> < 2 ^ 53 * pow2 j" using pow2_pos [of j] by (simp add: ax)
    also have "\<dots> = pow2 (53 + j)" by (simp only: pow2_add pow2_53)
    also have "\<dots> \<le> pow2 e" using lt Ee by (intro pow2_mono) simp
    also have "\<dots> \<le> \<bar>x\<bar>" using exponent2_bounds [of "\<bar>x\<bar>"] x0 by (simp add: e_def)
    finally show False by simp
  qed
  define k where "k = m * 2 ^ nat (j - E)"
  have "x / pow2 E = of_int m * (pow2 j / pow2 E)" by (simp add: x_def)
  also have "\<dots> = of_int m * pow2 (j - E)" by (simp only: pow2_diff)
  also have "\<dots> = of_int k" using jE by (simp add: pow2_nonneg_int k_def)
  finally have q: "x / ulp x = of_int k" by (simp only: u)
  have "round_double x = of_int k * ulp x"
    using x0 by (simp add: round_double_def q round_half_even_of_int)
  also have "\<dots> = x / ulp x * ulp x" by (simp only: q)
  also have "\<dots> = x" by (simp add: u)
  finally show ?thesis by (simp only: x_def)
qed

lemma round_double_is_double:
  "\<exists>m j. \<bar>m\<bar> < 2 ^ 53 \<and> - 1074 \<le> j \<and> round_double x = of_int m * pow2 j"
proof (cases "x = 0")
  case True
  then have "round_double x = of_int 0 * pow2 0" by (simp add: round_double_def)
  then show ?thesis by (intro exI [of _ 0] exI [of _ "0::int"]) simp
next
  case False
  define e where "e = exponent2 \<bar>x\<bar>"
  define E where "E = max e (- 1022) - 52"
  have u: "ulp x = pow2 E" by (simp add: ulp_def E_def e_def)
  have E0: "- 1074 \<le> E" by (simp add: E_def)
  define m where "m = round_half_even (x / pow2 E)"
  have r: "round_double x = of_int m * pow2 E"
    using False by (simp add: round_double_def u m_def)
  have "\<bar>x\<bar> < pow2 (e + 1)" using exponent2_bounds [of "\<bar>x\<bar>"] False by (simp add: e_def)
  also have "\<dots> \<le> pow2 (E + 53)" by (intro pow2_mono) (simp add: E_def)
  also have "\<dots> = pow2 E * 2 ^ 53" by (simp only: pow2_add pow2_53)
  finally have "\<bar>x\<bar> / pow2 E < 2 ^ 53" using pow2_pos [of E] by (simp add: field_simps)
  then have q: "\<bar>x / pow2 E\<bar> < 2 ^ 53" using pow2_pos [of E] by (simp add: abs_divide)
  have "\<bar>real_of_int m - x / pow2 E\<bar> \<le> 1 / 2"
    using round_half_even_error [of "x / pow2 E"] by (simp only: m_def)
  then have "\<bar>real_of_int m\<bar> < 2 ^ 53 + 1" using q by linarith
  then have "real_of_int \<bar>m\<bar> < real_of_int (2 ^ 53 + 1)" by simp
  then have "\<bar>m\<bar> < 2 ^ 53 + 1" by (simp only: of_int_less_iff)
  then have mb: "\<bar>m\<bar> \<le> 2 ^ 53" by simp
  show ?thesis
  proof (cases "\<bar>m\<bar> < 2 ^ 53")
    case True
    then show ?thesis using r E0 by blast
  next
    case False
    then have "\<bar>m\<bar> = 2 ^ 53" using mb by simp
    then consider "m = 2 ^ 53" | "m = - (2 ^ 53)" by (auto simp: abs_if split: if_splits)
    then have "round_double x = of_int (m div 2) * pow2 (E + 1)"
      by cases (simp_all add: r pow2_add pow2_1)
    moreover have "\<bar>m div 2\<bar> < 2 ^ 53" using \<open>\<bar>m\<bar> = 2 ^ 53\<close> by (auto simp: abs_if split: if_splits)
    moreover have "- 1074 \<le> E + 1" using E0 by simp
    ultimately show ?thesis by blast
  qed
qed

lemma round_double_idem: "round_double (round_double x) = round_double x"
proof -
  from round_double_is_double [of x] obtain m j where
    "\<bar>m\<bar> < 2 ^ 53" "- 1074 \<le> j" "round_double x = of_int m * pow2 j" by blast
  then show ?thesis using round_double_fixes_doubles [of m j] by simp
qed

text \<open>
  Evaluating a rounding: with the exponent \<open>e\<close> of \<open>x\<close> and the integer \<open>m\<close> nearest to
  \<open>x\<close> in units of \<open>2 ^ (e - 52)\<close>, the result is \<open>m\<close> such units.
\<close>

lemma round_double_eval:
  assumes "x \<noteq> 0" "exponent2 \<bar>x\<bar> = e"
    and "round_half_even (x / pow2 (max e (- 1022) - 52)) = m"
  shows "round_double x = of_int m * pow2 (max e (- 1022) - 52)"
  using assms by (simp add: round_double_def ulp_def)

text \<open>
  The time to a deadline in milliseconds, as the source computes it: for a deadline
  within 2000000 seconds of the clock, the two roundings together move it by less than
  a nanosecond.
\<close>

lemma double_ms_near:
  assumes "\<bar>a - b\<bar> \<le> 2000000"
  shows "\<bar>double_mul (double_sub a b) 1000 - (a - b) * 1000\<bar> \<le> 1 / 1000000"
proof -
  define x where "x = a - b"
  define d where "d = round_double x"
  define p where "p = d * 1000"
  define r where "r = round_double p"
  have "\<bar>x\<bar> < pow2 21" using assms by (simp add: x_def pow2_def)
  from round_double_near [OF this] have "\<bar>d - x\<bar> \<le> pow2 (- 33)" by (simp add: d_def)
  then have dx: "\<bar>d - x\<bar> \<le> 1 / 8589934592" by (simp add: pow2_def)
  have "\<bar>d\<bar> \<le> 2000001" using dx assms unfolding x_def by linarith
  then have "\<bar>p\<bar> < pow2 31" by (simp add: p_def pow2_def)
  from round_double_near [OF this] have "\<bar>r - p\<bar> \<le> pow2 (- 23)" by (simp add: r_def)
  then have rp: "\<bar>r - p\<bar> \<le> 1 / 8388608" by (simp add: pow2_def)
  have "p - x * 1000 = (d - x) * 1000" by (simp add: p_def algebra_simps)
  then have "\<bar>p - x * 1000\<bar> = \<bar>(d - x) * 1000\<bar>" by (simp only:)
  also have "\<dots> = \<bar>d - x\<bar> * 1000" by (simp only: abs_mult)
  finally have px: "\<bar>p - x * 1000\<bar> \<le> 1000 / 8589934592" using dx by argo
  have "\<bar>r - x * 1000\<bar> \<le> 1 / 1000000" using rp px by argo
  then show ?thesis by (simp add: double_mul_def double_sub_def r_def p_def d_def x_def)
qed

text \<open>The conversion to \<^verbatim>\<open>int\<close>, and the timeout.\<close>

lemma static_cast_int_defined:
  "- 2147483649 < x \<Longrightarrow> x < 2147483648 \<Longrightarrow> static_cast_int x = Some (truncate_toward_zero x)"
  unfolding static_cast_int_def truncate_toward_zero_def
  by (auto simp: le_floor_iff floor_le_iff le_ceiling_iff ceiling_le_iff)

lemma truncate_near: "\<bar>of_int (truncate_toward_zero x) - x\<bar> < 1"
  unfolding truncate_toward_zero_def by (auto simp: abs_less_iff) linarith+

lemma compute_timeout_empty: "tasks s = [] \<Longrightarrow> compute_timeout s now = Some 10000"
  by (simp add: compute_timeout_def kEpollDefaultWait_def)

text \<open>
  With the earliest deadline within 2000000 seconds (some 23 days) of the clock, the
  timeout is defined, is not negative, and is the \<open>max 0 (deadline - now)\<close> in
  milliseconds up to the dropped fraction and the rounding.
\<close>

lemma compute_timeout_nonempty:
  assumes "tasks s \<noteq> []" and "\<bar>t_when (hd (tasks s)) - now\<bar> \<le> 2000000"
  shows "\<exists>timeout. compute_timeout s now = Some timeout \<and> 0 \<le> timeout \<and>
     \<bar>of_int timeout - max 0 ((t_when (hd (tasks s)) - now) * 1000)\<bar> < 1 + 1 / 1000000"
proof -
  define x where "x = (t_when (hd (tasks s)) - now) * 1000"
  define r where "r = double_mul (double_sub (t_when (hd (tasks s))) now) 1000"
  define c where "c = truncate_toward_zero r"
  have rx: "\<bar>r - x\<bar> \<le> 1 / 1000000"
    using double_ms_near [OF assms(2)] by (simp only: r_def x_def)
  have xb: "\<bar>x\<bar> \<le> 2000000000" using assms(2) by (simp add: x_def)
  have rb: "- 2147483649 < r" "r < 2147483648" using rx xb by linarith+
  have sc: "static_cast_int r = Some c"
    using static_cast_int_defined [OF rb] by (simp only: c_def)
  have ct: "compute_timeout s now = Some (if c < 0 then 0 else c)"
    using assms(1) sc by (simp add: compute_timeout_def r_def [symmetric])
  have cr: "\<bar>of_int c - r\<bar> < 1" using truncate_near [of r] by (simp only: c_def)
  have "\<bar>of_int c - x\<bar> < 1 + 1 / 1000000" using cr rx by linarith
  moreover have "real_of_int (if c < 0 then 0 else c) = max 0 (of_int c)"
    by (simp add: max_def)
  ultimately have "\<bar>of_int (if c < 0 then 0 else c) - max 0 x\<bar> < 1 + 1 / 1000000"
    by linarith
  moreover have "0 \<le> (if c < 0 then 0 else c)" by simp
  ultimately show ?thesis using ct unfolding x_def by blast
qed

lemma compute_timeout_defined:
  assumes "\<forall>t\<in>set (tasks s). \<bar>t_when t - now\<bar> \<le> 2000000"
  shows "\<exists>timeout. compute_timeout s now = Some timeout"
proof (cases "tasks s = []")
  case True
  then show ?thesis by (simp add: compute_timeout_def)
next
  case False
  then have "hd (tasks s) \<in> set (tasks s)" by simp
  with assms have "\<bar>t_when (hd (tasks s)) - now\<bar> \<le> 2000000" by blast
  from compute_timeout_nonempty [OF False this] show ?thesis by blast
qed

text \<open>
  The rounding shows in the timeout: for a task due at the \<^verbatim>\<open>double\<close> nearest to 0.3
  and the clock at 0, the product in \<^verbatim>\<open>double\<close> is 300, where the exact product is a
  little less and its whole part 299.
\<close>

lemma double_mul_rounds_up:
  "double_mul (double_sub (5404319552844595 / 2 ^ 54) 0) 1000 = 300 \<and>
   \<lfloor>5404319552844595 / 2 ^ 54 * (1000::real)\<rfloor> = 299"
proof -
  have e1: "exponent2 \<bar>5404319552844595 / 2 ^ 54\<bar> = - 2"
    by (simp add: exponent2_def bit_length.simps)
  have m1: "round_half_even (5404319552844595 / 2 ^ 54 / pow2 (max (- 2) (- 1022) - 52)) =
      5404319552844595"
    by (simp add: round_half_even_def pow2_def)
  have r1: "round_double (5404319552844595 / 2 ^ 54) = 5404319552844595 / 2 ^ 54"
    using round_double_eval [OF _ e1 m1] by (simp add: pow2_def)
  have e2: "exponent2 \<bar>5404319552844595 / 2 ^ 54 * 1000\<bar> = 8"
    by (simp add: exponent2_def bit_length.simps)
  have m2: "round_half_even (5404319552844595 / 2 ^ 54 * 1000 / pow2 (max 8 (- 1022) - 52)) =
      5277655813324800"
    by (simp add: round_half_even_def pow2_def)
  have r2: "round_double (5404319552844595 / 2 ^ 54 * 1000) = 300"
    using round_double_eval [OF _ e2 m2] by (simp add: pow2_def)
  have "double_mul (double_sub (5404319552844595 / 2 ^ 54) 0) 1000 = 300"
    unfolding double_mul_def double_sub_def by (simp only: diff_zero r1 r2)
  then show ?thesis by simp
qed

lemma compute_timeout_rounds_up:
  "compute_timeout \<lparr>is_running = True, thread_set = {10}, fds = Map.empty,
                     tasks = [\<lparr>t_when = 5404319552844595 / 2 ^ 54, t_f = 1\<rparr>],
                     event_fd = 4, effects = []\<rparr> 0 = Some 300"
  using double_mul_rounds_up
  by (simp add: compute_timeout_def static_cast_int_def truncate_toward_zero_def)

text \<open>
  And it can carry the product out of the range of \<^verbatim>\<open>int\<close>: for a task due at the
  \<^verbatim>\<open>double\<close> nearest to 2147483.648 and the clock at the \<^verbatim>\<open>double\<close> nearest to
  0.0000000001, the exact product is below 2147483648 and its whole part 2147483647
  fits, but the product in \<^verbatim>\<open>double\<close> is 2147483648.
\<close>

lemma double_mul_rounds_out_of_range:
  "double_mul (double_sub (1152921504606847 / 2 ^ 29) (7737125245533627 / 2 ^ 86)) 1000 =
     2147483648 \<and>
   \<lfloor>(1152921504606847 / 2 ^ 29 - 7737125245533627 / 2 ^ 86) * (1000::real)\<rfloor> = 2147483647 \<and>
   static_cast_int
     (double_mul (double_sub (1152921504606847 / 2 ^ 29) (7737125245533627 / 2 ^ 86)) 1000) =
     None"
proof -
  have e1: "exponent2 \<bar>1152921504606847 / 2 ^ 29 - 7737125245533627 / 2 ^ 86\<bar> = 21"
    by (simp add: exponent2_def bit_length.simps)
  have m1: "round_half_even ((1152921504606847 / 2 ^ 29 - 7737125245533627 / 2 ^ 86)
      / pow2 (max 21 (- 1022) - 52)) = 4611686018427388"
    by (simp add: round_half_even_def pow2_def)
  have r1: "round_double (1152921504606847 / 2 ^ 29 - 7737125245533627 / 2 ^ 86) =
      1152921504606847 / 2 ^ 29"
    using round_double_eval [OF _ e1 m1] by (simp add: pow2_def)
  have e2: "exponent2 \<bar>1152921504606847 / 2 ^ 29 * 1000\<bar> = 31"
    by (simp add: exponent2_def bit_length.simps)
  have m2: "round_half_even (1152921504606847 / 2 ^ 29 * 1000 / pow2 (max 31 (- 1022) - 52)) =
      4503599627370496"
    by (simp add: round_half_even_def pow2_def)
  have r2: "round_double (1152921504606847 / 2 ^ 29 * 1000) = 2147483648"
    using round_double_eval [OF _ e2 m2] by (simp add: pow2_def)
  have p: "double_mul (double_sub (1152921504606847 / 2 ^ 29) (7737125245533627 / 2 ^ 86)) 1000 =
      2147483648"
    unfolding double_mul_def double_sub_def by (simp only: r1 r2)
  have f: "\<lfloor>(1152921504606847 / 2 ^ 29 - 7737125245533627 / 2 ^ 86) * (1000::real)\<rfloor> =
      2147483647"
    by simp
  have c: "static_cast_int 2147483648 = None"
    by (simp add: static_cast_int_def truncate_toward_zero_def)
  show ?thesis using f c by (simp only: p)
qed

text \<open>
  One pass of the loop, and any number of passes: the tasks run are in non-decreasing
  order of deadline, and the loop gets through its passes when every pending deadline
  is within 2000000 seconds of the clock.
\<close>

lemma thread_main_iter_waits:
  assumes "compute_timeout s now = Some timeout"
  shows "\<exists>s'. thread_main_iter now w clock s = Some s' \<and>
     take 3 (new_effects s s') = [MutexUnlock, EpollWait timeout, MutexLock]"
proof (cases w)
  case (WaitError errno)
  then show ?thesis using assms
    by (simp add: thread_main_iter_def Let_def emit_def new_effects_def)
next
  case (WaitEvents events)
  define s3 where "s3 = emit MutexLock (emit (EpollWait timeout) (emit MutexUnlock s))"
  have e3: "effects s3 = effects s @ [MutexUnlock, EpollWait timeout, MutexLock]"
    by (simp add: s3_def emit_def)
  have t3: "tasks s3 = tasks s" by (simp add: s3_def emit_def)
  from effects_dispatch [of events s3]
  obtain es where es: "effects (dispatch events s3) = effects s3 @ es"
    and td: "tasks (dispatch events s3) = tasks s3" by auto
  from effects_drain_prefix [of clock 0 "dispatch events s3"]
  obtain es' where "effects (drain clock 0 (dispatch events s3)) = effects (dispatch events s3) @ es'"
    by auto
  then have "effects (drain clock 0 (dispatch events s3)) =
      effects s @ [MutexUnlock, EpollWait timeout, MutexLock] @ es @ es'"
    using es e3 by simp
  moreover have "thread_main_iter now w clock s = Some (drain clock 0 (dispatch events s3))"
    using assms WaitEvents by (simp add: thread_main_iter_def Let_def s3_def)
  ultimately show ?thesis by (simp add: new_effects_def)
qed

lemma thread_main_iter_prefix:
  assumes "thread_main_iter now w clock s = Some s'"
  shows "\<exists>es. effects s' = effects s @ es"
proof -
  from assms obtain timeout where to: "compute_timeout s now = Some timeout"
    by (auto simp: thread_main_iter_def split: option.splits)
  define s3 where "s3 = emit MutexLock (emit (EpollWait timeout) (emit MutexUnlock s))"
  have e3: "effects s3 = effects s @ [MutexUnlock, EpollWait timeout, MutexLock]"
    by (simp add: s3_def emit_def)
  show ?thesis
  proof (cases w)
    case (WaitError errno)
    then have "s' = (if errno \<noteq> EINTR then emit (LogError errno) s3 else s3)"
      using assms to by (auto simp: thread_main_iter_def Let_def s3_def)
    then show ?thesis using e3 by (auto simp: emit_def)
  next
    case (WaitEvents events)
    then have s': "s' = drain clock 0 (dispatch events s3)"
      using assms to by (auto simp: thread_main_iter_def Let_def s3_def)
    from effects_dispatch [of events s3]
    obtain es where es: "effects (dispatch events s3) = effects s3 @ es" by auto
    from effects_drain_prefix [of clock 0 "dispatch events s3"]
    obtain es' where "effects (drain clock 0 (dispatch events s3)) =
        effects (dispatch events s3) @ es'" by auto
    then show ?thesis using es e3 s' by simp
  qed
qed

lemma thread_main_iter_fired:
  assumes "is_heap (tasks s)" "thread_main_iter now w clock s = Some s'"
  shows "\<exists>ts. fired (effects s') = fired (effects s) @ ts \<and>
     sorted (map t_when ts) \<and> set ts \<subseteq> set (tasks s) \<and> set (tasks s') \<subseteq> set (tasks s) \<and>
     is_heap (tasks s') \<and>
     (\<forall>t\<in>set ts. \<forall>u\<in>set (tasks s'). t_when t \<le> t_when u) \<and>
     (\<exists>es. effects s' = effects s @ es)"
proof -
  from assms(2) obtain timeout where to: "compute_timeout s now = Some timeout"
    by (auto simp: thread_main_iter_def split: option.splits)
  define s3 where "s3 = emit MutexLock (emit (EpollWait timeout) (emit MutexUnlock s))"
  have e3: "effects s3 = effects s @ [MutexUnlock, EpollWait timeout, MutexLock]"
    and t3: "tasks s3 = tasks s" by (simp_all add: s3_def emit_def)
  show ?thesis
  proof (cases w)
    case (WaitError errno)
    then have "s' = (if errno \<noteq> EINTR then emit (LogError errno) s3 else s3)"
      using assms(2) to by (auto simp: thread_main_iter_def Let_def s3_def)
    then have "tasks s' = tasks s" and "fired (effects s') = fired (effects s)"
      and "\<exists>es. effects s' = effects s @ es"
      using e3 t3 by (auto simp: emit_def)
    then show ?thesis using assms(1) by (intro exI [of _ "[]"]) simp
  next
    case (WaitEvents events)
    define sd where "sd = dispatch events s3"
    have s': "s' = drain clock 0 sd"
      using assms(2) to WaitEvents by (simp add: thread_main_iter_def Let_def s3_def sd_def)
    from effects_dispatch [of events s3]
    obtain es where es: "effects sd = effects s3 @ es" and td: "tasks sd = tasks s"
      using t3 by (auto simp: sd_def)
    have fd: "fired (effects sd) = fired (effects s)"
      using fired_dispatch [of events s3] e3 by (simp add: sd_def)
    have hd: "is_heap (tasks sd)" using assms(1) td by simp
    from drain_closed [OF hd, of clock 0] obtain ts where ts:
      "drain clock 0 sd = sd\<lparr>tasks := tasks (drain clock 0 sd),
          effects := effects sd @ concat (map (\<lambda>t. [MutexUnlock, CallTask t, MutexLock]) ts)\<rparr>"
      "sorted (map t_when ts)"
      "mset ts + mset (tasks (drain clock 0 sd)) = mset (tasks sd)"
      "is_heap (tasks (drain clock 0 sd))"
      "\<forall>t\<in>set ts. \<forall>u\<in>set (tasks (drain clock 0 sd)). t_when t \<le> t_when u"
      by blast
    have eff: "effects s' = effects sd @ concat (map (\<lambda>t. [MutexUnlock, CallTask t, MutexLock]) ts)"
      unfolding s' by (subst ts(1)) simp
    have a: "fired (effects s') = fired (effects s) @ ts" using eff fd by simp
    have "set_mset (mset ts + mset (tasks s')) = set (tasks s)"
      using ts(3) td by (simp add: s')
    then have b: "set ts \<subseteq> set (tasks s)" and c: "set (tasks s') \<subseteq> set (tasks s)" by auto
    have d: "\<exists>es. effects s' = effects s @ es" using eff es e3 by simp
    show ?thesis using a b c d ts(2,4,5) by (intro exI [of _ ts]) (simp add: s')
  qed
qed

lemma thread_main_loop_fired:
  assumes "is_heap (tasks s)" "thread_main_loop envs s = Some s'"
  shows "\<exists>es. effects s' = effects s @ es \<and> sorted (map t_when (fired es)) \<and>
     set (fired es) \<subseteq> set (tasks s) \<and> set (tasks s') \<subseteq> set (tasks s) \<and>
     (\<forall>t\<in>set (fired es). \<forall>u\<in>set (tasks s'). t_when t \<le> t_when u)"
  using assms
proof (induction envs arbitrary: s)
  case Nil
  then show ?case by simp
next
  case (Cons env envs)
  obtain now w clock where env: "env = (now, w, clock)" by (cases env)
  show ?case
  proof (cases "is_running s")
    case False
    then show ?thesis using Cons.prems by (simp add: env)
  next
    case True
    with Cons.prems(2) obtain s1 where s1: "thread_main_iter now w clock s = Some s1"
      and rest: "thread_main_loop envs s1 = Some s'"
      by (auto simp: env split: option.splits)
    from thread_main_iter_fired [OF Cons.prems(1) s1] obtain ts es1 where ts:
      "fired (effects s1) = fired (effects s) @ ts" "sorted (map t_when ts)"
      "set ts \<subseteq> set (tasks s)" "set (tasks s1) \<subseteq> set (tasks s)" "is_heap (tasks s1)"
      "\<forall>t\<in>set ts. \<forall>u\<in>set (tasks s1). t_when t \<le> t_when u"
      "effects s1 = effects s @ es1" by blast
    have f1: "fired es1 = ts" using ts(1,7) by simp
    from Cons.IH [OF ts(5) rest] obtain es2 where es2:
      "effects s' = effects s1 @ es2" "sorted (map t_when (fired es2))"
      "set (fired es2) \<subseteq> set (tasks s1)" "set (tasks s') \<subseteq> set (tasks s1)"
      "\<forall>t\<in>set (fired es2). \<forall>u\<in>set (tasks s'). t_when t \<le> t_when u" by blast
    have a: "effects s' = effects s @ (es1 @ es2)" using ts(7) es2(1) by simp
    have b: "sorted (map t_when (fired (es1 @ es2)))"
      using ts(2,6) es2(2,3) f1 by (auto simp: sorted_append)
    have c: "set (fired (es1 @ es2)) \<subseteq> set (tasks s)"
      using ts(3,4) es2(3) f1 by auto
    have d: "set (tasks s') \<subseteq> set (tasks s)" using ts(4) es2(4) by auto
    have e: "\<forall>t\<in>set (fired (es1 @ es2)). \<forall>u\<in>set (tasks s'). t_when t \<le> t_when u"
      using ts(6) es2(4,5) f1 by auto
    show ?thesis using a b c d e by blast
  qed
qed

lemma thread_main_loop_returns:
  assumes "is_heap (tasks s)"
    and "\<forall>env\<in>set envs. \<forall>t\<in>set (tasks s). \<bar>t_when t - fst env\<bar> \<le> 2000000"
  shows "\<exists>s'. thread_main_loop envs s = Some s'"
  using assms
proof (induction envs arbitrary: s)
  case Nil
  then show ?case by simp
next
  case (Cons env envs)
  obtain now w clock where env: "env = (now, w, clock)" by (cases env)
  show ?case
  proof (cases "is_running s")
    case False
    then show ?thesis by (simp add: env)
  next
    case True
    have "\<forall>t\<in>set (tasks s). \<bar>t_when t - now\<bar> \<le> 2000000"
      using Cons.prems(2) by (simp add: env)
    from compute_timeout_defined [OF this] obtain timeout where
      "compute_timeout s now = Some timeout" by blast
    from thread_main_iter_waits [OF this, of w clock] obtain s1 where
      s1: "thread_main_iter now w clock s = Some s1" by blast
    from thread_main_iter_fired [OF Cons.prems(1) s1]
    have sub: "set (tasks s1) \<subseteq> set (tasks s)" and h1: "is_heap (tasks s1)" by blast+
    have "\<forall>env\<in>set envs. \<forall>t\<in>set (tasks s1). \<bar>t_when t - fst env\<bar> \<le> 2000000"
      using Cons.prems(2) sub by auto
    from Cons.IH [OF h1 this] show ?thesis using True s1 by (simp add: env)
  qed
qed

text \<open>A list sorted by a key that is distinct on it is determined by its elements.\<close>

lemma filter_same_key:
  "distinct (map f xs) \<Longrightarrow> k \<in> set xs \<Longrightarrow> filter (\<lambda>x. f k = f x) xs = [k]"
proof (induction xs)
  case Nil
  then show ?case by simp
next
  case (Cons a xs)
  show ?case
  proof (cases "k = a")
    case True
    have "filter (\<lambda>x. f a = f x) xs = []"
      using Cons.prems(1) by (auto simp: filter_empty_conv)
    then show ?thesis using True by simp
  next
    case False
    then have "k \<in> set xs" using Cons.prems(2) by simp
    moreover have "f a \<notin> f ` set xs" using Cons.prems(1) by simp
    then have "f k \<noteq> f a" using \<open>k \<in> set xs\<close> by (metis imageI)
    ultimately show ?thesis using Cons by simp
  qed
qed

lemma sorted_distinct_unique:
  assumes "sorted (map f ys)" "mset ys = mset xs" "distinct (map f xs)"
  shows "ys = sort_key f xs"
proof -
  have "mset (map f ys) = mset (map f xs)" using assms(2) by simp
  then have d: "distinct (map f ys)" using assms(3) by (metis mset_eq_imp_distinct_iff)
  have s: "set ys = set xs" using assms(2) by (metis set_mset_mset)
  have "filter (\<lambda>x. f k = f x) ys = filter (\<lambda>x. f k = f x) xs" if "k \<in> set ys" for k
    using filter_same_key [OF d that] filter_same_key [OF assms(3), of k] that s by simp
  then show ?thesis
    using properties_for_sort_key [OF assms(2) _ assms(1)] by simp
qed

text \<open>
  The task vector of a new object is a heap, and every public member function keeps it
  one (as every pass of the loop of \<^verbatim>\<open>thread_main\<close> does, see \<open>thread_main_iter_fired\<close>).
\<close>

lemma is_heap_new: "is_heap (tasks (EventManager_new efd))"
  by (simp add: EventManager_new_def is_heap_Nil)

lemma is_heap_api_step: "is_heap (tasks s) \<Longrightarrow> is_heap (tasks (api_step c s))"
proof (cases c)
  case (Start n self mk)
  assume "is_heap (tasks s)"
  then show ?thesis using Start
    by (simp add: start_def Let_def emit_def start_loop_closed)
next
  case (Stop self)
  assume "is_heap (tasks s)"
  then show ?thesis using Stop
    by (simp add: stop_def Let_def emit_def stop_loop_closed is_heap_Nil)
next
  case (Enqueue f w)
  assume "is_heap (tasks s)"
  then show ?thesis using Enqueue by (simp add: is_heap_enqueue)
next
  case (WatchFd fd flags f)
  assume "is_heap (tasks s)"
  then show ?thesis using WatchFd by (simp add: watchFd_def Let_def emit_def)
next
  case (RemoveFd fd flags)
  assume "is_heap (tasks s)"
  then show ?thesis using RemoveFd by (simp add: removeFd_def Let_def emit_def)
qed

lemma is_heap_run_api: "is_heap (tasks s) \<Longrightarrow> is_heap (tasks (run_api calls s))"
  by (induction calls arbitrary: s) (simp_all add: run_api_def is_heap_api_step)

text \<open>Calls that start no thread run no code but their own.\<close>

lemma api_step_quiet:
  assumes "\<not> spawns c"
  shows "\<exists>es. effects (api_step c s) = effects s @ es \<and> (\<forall>e\<in>set es. \<not> runs_code e) \<and>
     thread_set (api_step c s) \<subseteq> thread_set s"
proof (cases c)
  case (Start n self mk)
  then have "n \<le> 0" using assms by simp
  then have "[0..n - 1] = []" and "{0..<n} = {}" by simp_all
  then show ?thesis using Start
    by (simp add: start_def Let_def emit_def start_loop_closed)
next
  case (Stop self)
  then show ?thesis
    by (auto simp: stop_def Let_def emit_def stop_loop_closed)
next
  case (Enqueue f w)
  have "thread_set (enqueue f w s) = thread_set s"
    by (simp add: enqueue_def Let_def emit_def)
  then show ?thesis using Enqueue by (simp add: effects_enqueue)
next
  case (WatchFd fd flags f)
  then show ?thesis by (simp add: watchFd_def Let_def emit_def)
next
  case (RemoveFd fd flags)
  then show ?thesis by (simp add: removeFd_def Let_def emit_def)
qed

lemma run_api_quiet:
  "\<forall>c\<in>set calls. \<not> spawns c \<Longrightarrow>
   \<exists>es. effects (run_api calls s) = effects s @ es \<and> (\<forall>e\<in>set es. \<not> runs_code e) \<and>
     thread_set (run_api calls s) \<subseteq> thread_set s"
proof (induction calls arbitrary: s)
  case Nil
  then show ?case by (simp add: run_api_def)
next
  case (Cons c calls)
  from api_step_quiet [of c s] Cons.prems obtain es where es:
    "effects (api_step c s) = effects s @ es" "\<forall>e\<in>set es. \<not> runs_code e"
    "thread_set (api_step c s) \<subseteq> thread_set s" by auto
  from Cons.IH [of "api_step c s"] Cons.prems obtain es' where es':
    "effects (run_api calls (api_step c s)) = effects (api_step c s) @ es'"
    "\<forall>e\<in>set es'. \<not> runs_code e"
    "thread_set (run_api calls (api_step c s)) \<subseteq> thread_set (api_step c s)" by auto
  have "run_api (c # calls) s = run_api calls (api_step c s)" by (simp add: run_api_def)
  then show ?case using es es' by auto
qed

lemma count_joins [simp]:
  "count_list (concat (map (\<lambda>i. [MutexUnlock, PthreadJoin i, MutexLock]) ts)) EventfdWrite = 0"
  by (induction ts) simp_all

section \<open>Properties of the member functions and of the loop\<close>

subsection \<open>Order of firing\<close>

text \<open>
  C1. For every sequence \<open>calls\<close> of \<^verbatim>\<open>enqueue\<close> calls on an object whose task vector is
  a heap (the constructor's empty vector is one, and every member function keeps it
  one), whatever the deadlines:
  \<^item> the front of the vector afterwards is due no later than any task in it;
  \<^item> the inner loop of \<^verbatim>\<open>thread_main\<close>, when the front is due, runs the front first;
  \<^item> the tasks it runs, under any clock, are in non-decreasing order of deadline;
  \<^item> when the deadlines are pairwise distinct and all have passed, the tasks run are
    exactly the pending tasks sorted by deadline;
  \<^item> the same order holds over any number of passes of the loop of \<^verbatim>\<open>thread_main\<close>.

  The order is among the tasks that are in the vector when the loop runs, with one
  thread running it: a task scheduled after a later one has been run is outside it.
\<close>

theorem tasks_fire_in_deadline_order:
  assumes "is_heap (tasks s0)"
  shows
   "(\<forall>t\<in>set (tasks (schedule_all calls s0)).
        t_when (hd (tasks (schedule_all calls s0))) \<le> t_when t) \<and>
    (tasks (schedule_all calls s0) \<noteq> [] \<and> t_when (hd (tasks (schedule_all calls s0))) \<le> clock k \<longrightarrow>
       hd (fired (new_effects s0 (drain clock k (schedule_all calls s0)))) =
         hd (tasks (schedule_all calls s0))) \<and>
    sorted (map t_when (fired (new_effects s0 (drain clock k (schedule_all calls s0))))) \<and>
    ((\<forall>j. \<forall>t\<in>set (tasks s0 @ map task_of calls). t_when t \<le> clock j) \<and>
     distinct (map t_when (tasks s0 @ map task_of calls)) \<longrightarrow>
       fired (new_effects s0 (drain clock k (schedule_all calls s0))) =
         sort_key t_when (tasks s0 @ map task_of calls)) \<and>
    (\<forall>s'. thread_main_loop envs (schedule_all calls s0) = Some s' \<longrightarrow>
       sorted (map t_when (fired (new_effects s0 s'))))"
proof -
  define s where "s = schedule_all calls s0"
  note sp = schedule_all_props [OF assms, of calls, folded s_def]
  from schedule_all_effects [OF assms, of calls] obtain es0 where
    es0: "effects s = effects s0 @ es0" "fired es0 = []" by (auto simp: s_def)
  have hs: "is_heap (tasks s)" using sp by simp
  from drain_closed [OF hs, of clock k] obtain ts where ts:
    "drain clock k s = s\<lparr>tasks := tasks (drain clock k s),
            effects := effects s @ concat (map (\<lambda>t. [MutexUnlock, CallTask t, MutexLock]) ts)\<rparr>"
    "sorted (map t_when ts)"
    "mset ts + mset (tasks (drain clock k s)) = mset (tasks s)"
    "tasks s \<noteq> [] \<and> t_when (hd (tasks s)) \<le> clock k \<longrightarrow> ts \<noteq> [] \<and> hd ts = hd (tasks s)"
    by blast
  have "effects (drain clock k s) =
     effects s0 @ es0 @ concat (map (\<lambda>t. [MutexUnlock, CallTask t, MutexLock]) ts)"
    by (subst ts(1)) (simp add: es0)
  then have fd: "fired (new_effects s0 (drain clock k s)) = ts"
    using es0(2) by (simp add: new_effects_def)
  have a: "\<forall>t\<in>set (tasks s). t_when (hd (tasks s)) \<le> t_when t"
    using is_heap_hd_min hs by blast
  have b: "tasks s \<noteq> [] \<and> t_when (hd (tasks s)) \<le> clock k \<longrightarrow>
       hd (fired (new_effects s0 (drain clock k s))) = hd (tasks s)"
    using ts(4) fd by simp
  have c: "sorted (map t_when (fired (new_effects s0 (drain clock k s))))"
    using ts(2) fd by simp
  have d: "fired (new_effects s0 (drain clock k s)) = sort_key t_when (tasks s0 @ map task_of calls)"
    if due: "\<forall>j. \<forall>t\<in>set (tasks s0 @ map task_of calls). t_when t \<le> clock j"
      and dist: "distinct (map t_when (tasks s0 @ map task_of calls))"
  proof -
    have "set (tasks s) = set (tasks s0 @ map task_of calls)"
      using sp by (metis mset_append set_mset_mset)
    then have "tasks (drain clock k s) = []"
      using drain_all_due [of s clock k] hs due by simp
    then have "mset ts = mset (tasks s0 @ map task_of calls)" using ts(3) sp by simp
    from sorted_distinct_unique [OF ts(2) this dist] fd show ?thesis by simp
  qed
  have e: "sorted (map t_when (fired (new_effects s0 s')))"
    if "thread_main_loop envs s = Some s'" for s'
  proof -
    from thread_main_loop_fired [OF hs that] obtain es where
      es: "effects s' = effects s @ es" "sorted (map t_when (fired es))" by blast
    have "new_effects s0 s' = es0 @ es" using es(1) es0(1) by (simp add: new_effects_def)
    then show ?thesis using es(2) es0(2) by simp
  qed
  show ?thesis using a b c d e unfolding s_def by blast
qed

text \<open>
  Three tasks A, B, C (callbacks 1, 2, 3) scheduled for 0.3, 0.1 and 0.2 on a new
  object, and the loop run when all are due: B, C, A. The same through one pass of the
  loop of \<^verbatim>\<open>thread_main\<close> that was woken through the eventfd.
\<close>

theorem tasks_fire_in_deadline_order_witness:
  "is_heap (tasks (EventManager_new 4)) \<and>
   fired (new_effects (EventManager_new 4)
           (drain (\<lambda>k. 1) 0
             (schedule_all [(1, 3 / 10), (2, 1 / 10), (3, 2 / 10)] (EventManager_new 4)))) =
     [\<lparr>t_when = 1 / 10, t_f = 2\<rparr>, \<lparr>t_when = 2 / 10, t_f = 3\<rparr>, \<lparr>t_when = 3 / 10, t_f = 1\<rparr>] \<and>
   map_option (\<lambda>s. fired (effects s))
     (thread_main_loop [(0, WaitEvents [(4, 1)], \<lambda>k. 1)]
       (schedule_all [(1, 3 / 10), (2, 1 / 10), (3, 2 / 10)]
         \<lparr>is_running = True, thread_set = {10}, fds = Map.empty, tasks = [],
          event_fd = 4, effects = []\<rparr>)) =
     Some [\<lparr>t_when = 1 / 10, t_f = 2\<rparr>, \<lparr>t_when = 2 / 10, t_f = 3\<rparr>, \<lparr>t_when = 3 / 10, t_f = 1\<rparr>]"
proof -
  have h: "is_heap (tasks (EventManager_new 4))"
    by (simp add: EventManager_new_def is_heap_Nil)
  have a: "fired (new_effects (EventManager_new 4)
           (drain (\<lambda>k. 1) 0
             (schedule_all [(1, 3 / 10), (2, 1 / 10), (3, 2 / 10)] (EventManager_new 4)))) =
     [\<lparr>t_when = 1 / 10, t_f = 2\<rparr>, \<lparr>t_when = 2 / 10, t_f = 3\<rparr>, \<lparr>t_when = 3 / 10, t_f = 1\<rparr>]"
    using tasks_fire_in_deadline_order [OF h, of "[(1, 3 / 10), (2, 1 / 10), (3, 2 / 10)]" "\<lambda>k. 1" 0]
    by (simp add: EventManager_new_def task_of_def)
  have e1: "exponent2 \<bar>1 / 10\<bar> = - 4"
    by (simp add: exponent2_def bit_length.simps)
  have m1: "round_half_even (1 / 10 / pow2 (max (- 4) (- 1022) - 52)) = 7205759403792794"
    by (simp add: round_half_even_def pow2_def)
  have r1: "round_double (1 / 10) = 3602879701896397 / 2 ^ 55"
    using round_double_eval [OF _ e1 m1] by (simp add: pow2_def)
  have e2: "exponent2 \<bar>3602879701896397 / 2 ^ 55 * 1000\<bar> = 6"
    by (simp add: exponent2_def bit_length.simps)
  have m2: "round_half_even (3602879701896397 / 2 ^ 55 * 1000 / pow2 (max 6 (- 1022) - 52)) =
      7036874417766400"
    by (simp add: round_half_even_def pow2_def)
  have r2: "round_double (3602879701896397 / 2 ^ 55 * 1000) = 100"
    using round_double_eval [OF _ e2 m2] by (simp add: pow2_def)
  have ms: "double_mul (double_sub (1 / 10) 0) 1000 = 100"
    unfolding double_mul_def double_sub_def by (simp only: diff_zero r1 r2)
  have b: "map_option (\<lambda>s. fired (effects s))
     (thread_main_loop [(0, WaitEvents [(4, 1)], \<lambda>k. 1)]
       (schedule_all [(1, 3 / 10), (2, 1 / 10), (3, 2 / 10)]
         \<lparr>is_running = True, thread_set = {10}, fds = Map.empty, tasks = [],
          event_fd = 4, effects = []\<rparr>)) =
     Some [\<lparr>t_when = 1 / 10, t_f = 2\<rparr>, \<lparr>t_when = 2 / 10, t_f = 3\<rparr>, \<lparr>t_when = 3 / 10, t_f = 1\<rparr>]"
    by (simp add: schedule_all_def enqueue_def Let_def emit_def push_heap_def push_heap_loop.simps
      compareTasks_def thread_main_iter_def compute_timeout_def ms static_cast_int_def
      truncate_toward_zero_def dispatch_event_def drain.simps pop_heap_def adjust_heap_def
      adjust_heap_loop.simps)
  show ?thesis using h a b by simp
qed

subsection \<open>Waking a worker for a new task\<close>

text \<open>
  C2. \<^verbatim>\<open>enqueue\<close> writes to the eventfd exactly when the deadline at the front of the
  heap after the push differs from \<open>oldwhen\<close>, which is the front's deadline before the
  push, or \<open>-1\<close> for an empty vector. On a heap that is: the vector was not empty and
  the new deadline is strictly earlier than the earliest before, or the vector was
  empty and the new deadline is not \<open>-1\<close> (lemma \<open>enqueue_signal\<close>). A task with the
  deadline \<open>-1\<close> scheduled on an empty vector is pushed and no worker is woken:
\<close>

theorem enqueue_deadline_minus_one_not_signalled:
  "tasks (EventManager_new 4) = [] \<and>
   tasks (enqueue 7 (- 1) (EventManager_new 4)) = [\<lparr>t_when = - 1, t_f = 7\<rparr>] \<and>
   new_effects (EventManager_new 4) (enqueue 7 (- 1) (EventManager_new 4)) =
     [MutexLock, MutexUnlock]"
proof -
  have "is_heap (tasks (EventManager_new 4))" by (simp add: EventManager_new_def is_heap_Nil)
  from enqueue_signal [OF this, of 7 "- 1"] show ?thesis
    by (simp add: EventManager_new_def enqueue_def Let_def emit_def push_heap_def
        push_heap_loop.simps)
qed

subsection \<open>Stopping\<close>

text \<open>
  C3. \<^verbatim>\<open>stop\<close> called by a thread of the registry returns false and changes no field
  (it locks and unlocks the mutex, nothing else). Called by any other thread it returns
  true and leaves the object not running, with no watch, no task and an empty
  registry. What it does meanwhile is: lock; one write to the eventfd; for each
  registered thread, in ascending order, unlock, join, lock; unlock. So it runs no
  callback, issues no \<^verbatim>\<open>EPOLL_CTL_DEL\<close>, writes to the eventfd once and joins exactly the
  registered threads. A \<^verbatim>\<open>start\<close> after it, by any thread, succeeds.
\<close>

theorem stop_discards_and_joins:
  "(self \<in> thread_set s \<longrightarrow>
      stop self s = (False, s\<lparr>effects := effects s @ [MutexLock, MutexUnlock]\<rparr>)) \<and>
   (self \<notin> thread_set s \<longrightarrow>
      stop self s =
        (True, s\<lparr>is_running := False, thread_set := {}, fds := Map.empty, tasks := [],
                 effects := effects s @ [MutexLock, EventfdWrite]
                            @ concat (map (\<lambda>i. [MutexUnlock, PthreadJoin i, MutexLock])
                                          (sorted_list_of_set (thread_set s)))
                            @ [MutexUnlock]\<rparr>) \<and>
      (\<forall>e\<in>set (new_effects s (snd (stop self s))).
          (\<forall>f m. e \<noteq> CallFd f m) \<and> (\<forall>t. e \<noteq> CallTask t) \<and> (\<forall>fd flags. e \<noteq> EpollCtlDel fd flags)) \<and>
      count_list (new_effects s (snd (stop self s))) EventfdWrite = 1 \<and>
      (finite (thread_set s) \<longrightarrow>
         (\<forall>i. PthreadJoin i \<in> set (new_effects s (snd (stop self s))) \<longleftrightarrow> i \<in> thread_set s)) \<and>
      (\<forall>n self' mk. fst (start n self' mk (snd (stop self s)))))"
  by (auto simp add: stop_def start_def Let_def emit_def stop_loop_closed new_effects_def)

text \<open>
  One task and one watch pending, two workers: a third thread stops the reactor; a
  worker cannot.
\<close>

theorem stop_discards_and_joins_witness:
  "stop 9 \<lparr>is_running = True, thread_set = {11, 10}, fds = [(5, 1) \<mapsto> 7],
           tasks = [\<lparr>t_when = 2, t_f = 8\<rparr>], event_fd = 4, effects = []\<rparr> =
     (True, \<lparr>is_running = False, thread_set = {}, fds = Map.empty, tasks = [],
             event_fd = 4,
             effects = [MutexLock, EventfdWrite, MutexUnlock, PthreadJoin 10, MutexLock,
                        MutexUnlock, PthreadJoin 11, MutexLock, MutexUnlock]\<rparr>) \<and>
   stop 10 \<lparr>is_running = True, thread_set = {11, 10}, fds = [(5, 1) \<mapsto> 7],
           tasks = [\<lparr>t_when = 2, t_f = 8\<rparr>], event_fd = 4, effects = []\<rparr> =
     (False, \<lparr>is_running = True, thread_set = {11, 10}, fds = [(5, 1) \<mapsto> 7],
           tasks = [\<lparr>t_when = 2, t_f = 8\<rparr>], event_fd = 4, effects = [MutexLock, MutexUnlock]\<rparr>)"
  using stop_discards_and_joins [of 9 "\<lparr>is_running = True, thread_set = {11, 10}, fds = [(5, 1) \<mapsto> 7],
           tasks = [\<lparr>t_when = 2, t_f = 8\<rparr>], event_fd = 4, effects = []\<rparr>"]
    stop_discards_and_joins [of 10 "\<lparr>is_running = True, thread_set = {11, 10}, fds = [(5, 1) \<mapsto> 7],
           tasks = [\<lparr>t_when = 2, t_f = 8\<rparr>], event_fd = 4, effects = []\<rparr>"]
  by simp

subsection \<open>Starting\<close>

text \<open>
  C4. \<^verbatim>\<open>start\<close> called by a thread of the registry returns false and changes no field.
  Called by any other thread it returns true, whether the reactor was running or not:
  it sets \<^verbatim>\<open>_is_running\<close>, calls \<^verbatim>\<open>pthread_create\<close> with \<^verbatim>\<open>trampoline\<close> as the start
  routine once for each \<open>i\<close> from 0 below \<open>n\<close>, and has put every identifier so obtained
  into the registry when it unlocks the mutex and returns.

  Each thread so created enters the reactor loop. On the object as \<^verbatim>\<open>start\<close> left it,
  its start routine is \<^verbatim>\<open>thread_main\<close>: it locks the mutex, runs the loop
  \<^verbatim>\<open>while (_is_running)\<close> and then the code after the loop. The loop condition holds, so
  the first pass is made; and when the timeout of that pass is defined, what the thread
  does first is to lock the mutex, unlock it, call \<^verbatim>\<open>epoll_wait\<close> with the timeout and
  lock the mutex again.
\<close>

theorem start_spawns_workers:
  "(self \<in> thread_set s \<longrightarrow>
      start n self mk s = (False, s\<lparr>effects := effects s @ [MutexLock, MutexUnlock]\<rparr>)) \<and>
   (self \<notin> thread_set s \<longrightarrow>
      start n self mk s =
        (True, s\<lparr>is_running := True,
                 thread_set := thread_set s \<union> mk ` {0..<n},
                 effects := effects s @ [MutexLock]
                            @ map (\<lambda>i. PthreadCreate (mk i) Trampoline) [0..n - 1]
                            @ [MutexUnlock]\<rparr>)) \<and>
   (start n self mk s = (True, s') \<and> PthreadCreate i r \<in> set (new_effects s s') \<longrightarrow>
      run_start_routine r ((now, w, clock) # envs) s' =
        (case thread_main_loop ((now, w, clock) # envs) (emit MutexLock s') of
           None \<Rightarrow> None
         | Some s2 \<Rightarrow> if is_running s2 then None
                      else Some (emit MutexUnlock (emit EventfdWrite s2))) \<and>
      thread_main_loop ((now, w, clock) # envs) (emit MutexLock s') =
        (case thread_main_iter now w clock (emit MutexLock s') of
           None \<Rightarrow> None
         | Some s1 \<Rightarrow> thread_main_loop envs s1) \<and>
      (\<forall>timeout. compute_timeout s' now = Some timeout \<longrightarrow>
         (\<exists>s1. thread_main_iter now w clock (emit MutexLock s') = Some s1 \<and>
               take 4 (new_effects s' s1) =
                 [MutexLock, MutexUnlock, EpollWait timeout, MutexLock])))"
proof -
  have a: "self \<in> thread_set s \<longrightarrow>
      start n self mk s = (False, s\<lparr>effects := effects s @ [MutexLock, MutexUnlock]\<rparr>)"
    by (simp add: start_def Let_def emit_def)
  have b: "self \<notin> thread_set s \<longrightarrow>
      start n self mk s =
        (True, s\<lparr>is_running := True,
                 thread_set := thread_set s \<union> mk ` {0..<n},
                 effects := effects s @ [MutexLock]
                            @ map (\<lambda>i. PthreadCreate (mk i) Trampoline) [0..n - 1]
                            @ [MutexUnlock]\<rparr>)"
    by (simp add: start_def Let_def emit_def start_loop_closed)
  have c: "run_start_routine r ((now, w, clock) # envs) s' =
        (case thread_main_loop ((now, w, clock) # envs) (emit MutexLock s') of
           None \<Rightarrow> None
         | Some s2 \<Rightarrow> if is_running s2 then None
                      else Some (emit MutexUnlock (emit EventfdWrite s2))) \<and>
      thread_main_loop ((now, w, clock) # envs) (emit MutexLock s') =
        (case thread_main_iter now w clock (emit MutexLock s') of
           None \<Rightarrow> None
         | Some s1 \<Rightarrow> thread_main_loop envs s1) \<and>
      (\<forall>timeout. compute_timeout s' now = Some timeout \<longrightarrow>
         (\<exists>s1. thread_main_iter now w clock (emit MutexLock s') = Some s1 \<and>
               take 4 (new_effects s' s1) =
                 [MutexLock, MutexUnlock, EpollWait timeout, MutexLock]))"
    if st: "start n self mk s = (True, s')"
  proof -
    have "self \<notin> thread_set s" using st a by auto
    then have run: "is_running s'" using st b by auto
    have c1: "run_start_routine r ((now, w, clock) # envs) s' =
        (case thread_main_loop ((now, w, clock) # envs) (emit MutexLock s') of
           None \<Rightarrow> None
         | Some s2 \<Rightarrow> if is_running s2 then None
                      else Some (emit MutexUnlock (emit EventfdWrite s2)))"
      by (cases r) (simp only: run_start_routine.simps trampoline_def thread_main_def)
    have c2: "thread_main_loop ((now, w, clock) # envs) (emit MutexLock s') =
        (case thread_main_iter now w clock (emit MutexLock s') of
           None \<Rightarrow> None
         | Some s1 \<Rightarrow> thread_main_loop envs s1)"
      using run by (simp add: emit_def)
    have c3: "\<exists>s1. thread_main_iter now w clock (emit MutexLock s') = Some s1 \<and>
               take 4 (new_effects s' s1) =
                 [MutexLock, MutexUnlock, EpollWait timeout, MutexLock]"
      if to: "compute_timeout s' now = Some timeout" for timeout
    proof -
      have "compute_timeout (emit MutexLock s') now = compute_timeout s' now"
        by (simp add: compute_timeout_def emit_def)
      then have "compute_timeout (emit MutexLock s') now = Some timeout"
        using to by simp
      from thread_main_iter_waits [OF this, of w clock] obtain s1 where
        s1: "thread_main_iter now w clock (emit MutexLock s') = Some s1"
          "take 3 (new_effects (emit MutexLock s') s1) = [MutexUnlock, EpollWait timeout, MutexLock]"
        by blast
      from thread_main_iter_prefix [OF s1(1)] obtain es where
        es: "effects s1 = effects (emit MutexLock s') @ es" by blast
      have "new_effects (emit MutexLock s') s1 = es"
        using es by (simp add: new_effects_def)
      moreover have "new_effects s' s1 = MutexLock # es"
        using es by (simp add: new_effects_def emit_def)
      ultimately have "take 4 (new_effects s' s1) =
          [MutexLock, MutexUnlock, EpollWait timeout, MutexLock]"
        using s1(2) by (simp add: numeral_eq_Suc)
      then show ?thesis using s1(1) by blast
    qed
    show ?thesis using c1 c2 c3 by blast
  qed
  show ?thesis using a b c by blast
qed

text \<open>
  Two threads started on a new object by thread 9, and a \<^verbatim>\<open>start\<close> by one of them
  refused. A thread created by the first call, with no task pending and its
  \<^verbatim>\<open>epoll_wait\<close> interrupted: it has locked, unlocked, waited with the default timeout
  and locked again, and is in the loop still.
\<close>

theorem start_spawns_workers_witness:
  "start 2 9 (\<lambda>i. nat i + 10) (EventManager_new 4) =
     (True, \<lparr>is_running = True, thread_set = {10, 11}, fds = Map.empty, tasks = [],
             event_fd = 4,
             effects = [EpollCtlAdd 4 1, MutexLock, PthreadCreate 10 Trampoline,
                        PthreadCreate 11 Trampoline, MutexUnlock]\<rparr>) \<and>
   start 3 10 (\<lambda>i. nat i + 20)
     \<lparr>is_running = True, thread_set = {10, 11}, fds = Map.empty, tasks = [],
      event_fd = 4, effects = []\<rparr> =
     (False, \<lparr>is_running = True, thread_set = {10, 11}, fds = Map.empty, tasks = [],
              event_fd = 4, effects = [MutexLock, MutexUnlock]\<rparr>) \<and>
   thread_main_loop [(0, WaitError 4, \<lambda>k. 0)]
     (emit MutexLock
       \<lparr>is_running = True, thread_set = {10, 11}, fds = Map.empty, tasks = [],
        event_fd = 4,
        effects = [EpollCtlAdd 4 1, MutexLock, PthreadCreate 10 Trampoline,
                   PthreadCreate 11 Trampoline, MutexUnlock]\<rparr>) =
     Some \<lparr>is_running = True, thread_set = {10, 11}, fds = Map.empty, tasks = [],
           event_fd = 4,
           effects = [EpollCtlAdd 4 1, MutexLock, PthreadCreate 10 Trampoline,
                      PthreadCreate 11 Trampoline, MutexUnlock,
                      MutexLock, MutexUnlock, EpollWait 10000, MutexLock]\<rparr> \<and>
   run_start_routine Trampoline [(0, WaitError 4, \<lambda>k. 0)]
     \<lparr>is_running = True, thread_set = {10, 11}, fds = Map.empty, tasks = [],
      event_fd = 4,
      effects = [EpollCtlAdd 4 1, MutexLock, PthreadCreate 10 Trampoline,
                 PthreadCreate 11 Trampoline, MutexUnlock]\<rparr> = None"
proof -
  have i: "{0..<2::int} = {0, 1}" by auto
  have u: "[0..1::int] = [0, 1]" by (simp add: upto.simps)
  show ?thesis
    using start_spawns_workers [of 9 "EventManager_new 4" 2 "\<lambda>i. nat i + 10"
        "\<lparr>is_running = True, thread_set = {10, 11}, fds = Map.empty, tasks = [],
          event_fd = 4,
          effects = [EpollCtlAdd 4 1, MutexLock, PthreadCreate 10 Trampoline,
                     PthreadCreate 11 Trampoline, MutexUnlock]\<rparr>" 10 Trampoline
        0 "WaitError 4" "\<lambda>k. 0" "[]"]
      start_spawns_workers [of 10 "\<lparr>is_running = True, thread_set = {10, 11}, fds = Map.empty, tasks = [],
      event_fd = 4, effects = []\<rparr>" 3 "\<lambda>i. nat i + 20"]
    by (simp add: EventManager_new_def i u insert_commute new_effects_def emit_def
        thread_main_iter_def compute_timeout_def kEpollDefaultWait_def EINTR_def)
qed

subsection \<open>Watching a descriptor\<close>

text \<open>
  C5. \<^verbatim>\<open>watchFd\<close> with a key (fd, flags) that is in \<^verbatim>\<open>_fds\<close> returns false and changes no
  field: the table and the callback stored under the key stay, and no \<^verbatim>\<open>epoll_ctl\<close> is
  issued. With a key that is not in the table it returns true, having issued
  \<^verbatim>\<open>EPOLL_CTL_ADD\<close> for the descriptor with the flags as events, stored the callback
  under the key and written to the eventfd, in this order.
\<close>

theorem watchFd_rejects_duplicate_key:
  "(fds s (fd, flags) \<noteq> None \<longrightarrow>
      watchFd fd flags f s = (False, s\<lparr>effects := effects s @ [MutexLock, MutexUnlock]\<rparr>)) \<and>
   (fds s (fd, flags) = None \<longrightarrow>
      watchFd fd flags f s =
        (True, s\<lparr>fds := (fds s)((fd, flags) \<mapsto> f),
                 effects := effects s @ [MutexLock, EpollCtlAdd fd flags, EventfdWrite, MutexUnlock]\<rparr>))"
  by (auto simp add: watchFd_def Let_def emit_def)

theorem watchFd_rejects_duplicate_key_witness:
  "watchFd 5 1 7 (EventManager_new 4) =
     (True, \<lparr>is_running = False, thread_set = {}, fds = [(5, 1) \<mapsto> 7], tasks = [],
             event_fd = 4,
             effects = [EpollCtlAdd 4 1, MutexLock, EpollCtlAdd 5 1, EventfdWrite, MutexUnlock]\<rparr>) \<and>
   watchFd 5 1 8 \<lparr>is_running = False, thread_set = {}, fds = [(5, 1) \<mapsto> 7], tasks = [],
                   event_fd = 4, effects = []\<rparr> =
     (False, \<lparr>is_running = False, thread_set = {}, fds = [(5, 1) \<mapsto> 7], tasks = [],
              event_fd = 4, effects = [MutexLock, MutexUnlock]\<rparr>)"
  using watchFd_rejects_duplicate_key [of "EventManager_new 4" 5 1 7]
    watchFd_rejects_duplicate_key [of "\<lparr>is_running = False, thread_set = {}, fds = [(5, 1) \<mapsto> 7], tasks = [],
                   event_fd = 4, effects = []\<rparr>" 5 1 8]
  by (simp add: EventManager_new_def)

text \<open>
  C6. \<^verbatim>\<open>removeFd\<close> with a key that is not in \<^verbatim>\<open>_fds\<close> returns false and changes no field.
  With a key that is in the table it returns true, having issued \<^verbatim>\<open>EPOLL_CTL_DEL\<close> for
  the descriptor and erased the key. It never writes to the eventfd.
\<close>

theorem removeFd_rejects_absent_key:
  "(fds s (fd, flags) = None \<longrightarrow>
      removeFd fd flags s = (False, s\<lparr>effects := effects s @ [MutexLock, MutexUnlock]\<rparr>)) \<and>
   (fds s (fd, flags) \<noteq> None \<longrightarrow>
      removeFd fd flags s =
        (True, s\<lparr>fds := (fds s)((fd, flags) := None),
                 effects := effects s @ [MutexLock, EpollCtlDel fd flags, MutexUnlock]\<rparr>))"
  by (auto simp add: removeFd_def Let_def emit_def)

theorem removeFd_rejects_absent_key_witness:
  "removeFd 5 1 \<lparr>is_running = False, thread_set = {}, fds = [(5, 1) \<mapsto> 7], tasks = [],
                 event_fd = 4, effects = []\<rparr> =
     (True, \<lparr>is_running = False, thread_set = {}, fds = Map.empty, tasks = [],
             event_fd = 4, effects = [MutexLock, EpollCtlDel 5 1, MutexUnlock]\<rparr>) \<and>
   removeFd 5 3 \<lparr>is_running = False, thread_set = {}, fds = [(5, 1) \<mapsto> 7], tasks = [],
                 event_fd = 4, effects = []\<rparr> =
     (False, \<lparr>is_running = False, thread_set = {}, fds = [(5, 1) \<mapsto> 7], tasks = [],
              event_fd = 4, effects = [MutexLock, MutexUnlock]\<rparr>)"
  using removeFd_rejects_absent_key [of "\<lparr>is_running = False, thread_set = {}, fds = [(5, 1) \<mapsto> 7], tasks = [],
                 event_fd = 4, effects = []\<rparr>" 5 1]
    removeFd_rejects_absent_key [of "\<lparr>is_running = False, thread_set = {}, fds = [(5, 1) \<mapsto> 7], tasks = [],
                 event_fd = 4, effects = []\<rparr>" 5 3]
  by simp

subsection \<open>The wait timeout\<close>

text \<open>
  C7. A task due at 1703000000 when the clock reads 1700000000, that is 3000000 seconds
  (some 35 days) ahead. The source computes the difference, 3000000.0, and the product
  with 1000, 3000000000.0, both exactly, and converts the product to \<^verbatim>\<open>int\<close>. An
  \<^verbatim>\<open>int\<close> holds at most 2147483647: the conversion is undefined, and the timeout of
  the pass with it. The source bounds the timeout below (\<^verbatim>\<open>if (timeout < 0) timeout = 0\<close>)
  and not above, so the number of milliseconds to the deadline, which is what C7 gives
  as the timeout, is not what the pass waits with.
\<close>

theorem wait_timeout_undefined_for_far_deadline:
  "double_sub 1703000000 1700000000 = 3000000 \<and>
   double_mul (double_sub 1703000000 1700000000) 1000 = 3000000000 \<and>
   static_cast_int (double_mul (double_sub 1703000000 1700000000) 1000) = None \<and>
   compute_timeout \<lparr>is_running = True, thread_set = {10}, fds = Map.empty,
                     tasks = [\<lparr>t_when = 1703000000, t_f = 1\<rparr>], event_fd = 4, effects = []\<rparr>
     1700000000 = None"
proof -
  have e1: "exponent2 \<bar>3000000\<bar> = 21"
    by (simp add: exponent2_def bit_length.simps)
  have m1: "round_half_even (3000000 / pow2 (max 21 (- 1022) - 52)) = 6442450944000000"
    by (simp add: round_half_even_def pow2_def)
  have r1: "round_double 3000000 = 3000000"
    using round_double_eval [OF _ e1 m1] by (simp add: pow2_def)
  have e2: "exponent2 \<bar>3000000000\<bar> = 31"
    by (simp add: exponent2_def bit_length.simps)
  have m2: "round_half_even (3000000000 / pow2 (max 31 (- 1022) - 52)) = 6291456000000000"
    by (simp add: round_half_even_def pow2_def)
  have r2: "round_double 3000000000 = 3000000000"
    using round_double_eval [OF _ e2 m2] by (simp add: pow2_def)
  have d: "double_sub 1703000000 1700000000 = 3000000"
    using r1 by (simp add: double_sub_def)
  have p: "double_mul (double_sub 1703000000 1700000000) 1000 = 3000000000"
    using r2 by (simp add: d double_mul_def)
  have c: "static_cast_int 3000000000 = None"
    by (simp add: static_cast_int_def truncate_toward_zero_def)
  show ?thesis using d p c by (simp add: compute_timeout_def)
qed

subsection \<open>Dispatch\<close>

text \<open>
  C8, with the table lookup first. For each event (fd, mask) of a batch the loop looks up the exact pair
  in \<^verbatim>\<open>_fds\<close> first. When the pair is a key, the callback stored under it is called with
  the mask, the mutex released around the call, and nothing else is done: this holds
  for an event on the eventfd too. When the pair is not a key and the descriptor is the
  eventfd, the eventfd is read and nothing else is done. When the pair is not a key and
  the descriptor is another one, nothing is done, whatever other masks the descriptor
  is registered with. Over a batch, a callback is called with a mask exactly when the
  batch has an event with that mask whose pair is a key for that callback.
\<close>

theorem dispatch_exact_key:
  "(fds s (fd, m) = Some f \<longrightarrow>
      dispatch_event (fd, m) s = s\<lparr>effects := effects s @ [MutexUnlock, CallFd f m, MutexLock]\<rparr>) \<and>
   (fds s (fd, m) = None \<and> fd = event_fd s \<longrightarrow>
      dispatch_event (fd, m) s = s\<lparr>effects := effects s @ [EventfdRead]\<rparr>) \<and>
   (fds s (fd, m) = None \<and> fd \<noteq> event_fd s \<longrightarrow> dispatch_event (fd, m) s = s) \<and>
   (CallFd f m \<in> set (new_effects s (dispatch evs s)) \<longleftrightarrow>
      (\<exists>fd'. (fd', m) \<in> set evs \<and> fds s (fd', m) = Some f))"
  using dispatch_calls [of f m s evs]
  by (auto simp: dispatch_event_def emit_def)

text \<open>
  Descriptor 5 is watched for mask 1 and the eventfd is 4. A batch with 5 ready for
  mask 1, the eventfd, 5 ready for mask 3 and 6 ready for mask 1: one call, one read.
\<close>

theorem dispatch_exact_key_witness:
  "dispatch [(5, 1), (4, 1), (5, 3), (6, 1)]
     \<lparr>is_running = True, thread_set = {10}, fds = [(5, 1) \<mapsto> 7], tasks = [],
      event_fd = 4, effects = []\<rparr> =
     \<lparr>is_running = True, thread_set = {10}, fds = [(5, 1) \<mapsto> 7], tasks = [],
      event_fd = 4, effects = [MutexUnlock, CallFd 7 1, MutexLock, EventfdRead]\<rparr>"
  using
    dispatch_exact_key [of "\<lparr>is_running = True, thread_set = {10}, fds = [(5, 1) \<mapsto> 7], tasks = [],
      event_fd = 4, effects = []\<rparr>" 5 1 7 "[]"]
    dispatch_exact_key [of "\<lparr>is_running = True, thread_set = {10}, fds = [(5, 1) \<mapsto> 7], tasks = [],
      event_fd = 4, effects = [MutexUnlock, CallFd 7 1, MutexLock]\<rparr>" 4 1 7 "[]"]
    dispatch_exact_key [of "\<lparr>is_running = True, thread_set = {10}, fds = [(5, 1) \<mapsto> 7], tasks = [],
      event_fd = 4, effects = [MutexUnlock, CallFd 7 1, MutexLock, EventfdRead]\<rparr>" 5 3 7 "[]"]
    dispatch_exact_key [of "\<lparr>is_running = True, thread_set = {10}, fds = [(5, 1) \<mapsto> 7], tasks = [],
      event_fd = 4, effects = [MutexUnlock, CallFd 7 1, MutexLock, EventfdRead]\<rparr>" 6 1 7 "[]"]
  by simp

text \<open>
  C8 as stated fails when the pair (eventfd, mask) is itself a key of \<^verbatim>\<open>_fds\<close>, as after
  \<^verbatim>\<open>watchFd(4, 1, f)\<close> on an object whose eventfd is 4: the event on the eventfd calls the
  callback and the eventfd is not read.
\<close>

theorem wakeup_event_with_registered_key_not_drained:
  "watchFd 4 1 7 (EventManager_new 4) =
     (True, \<lparr>is_running = False, thread_set = {}, fds = [(4, 1) \<mapsto> 7], tasks = [],
             event_fd = 4,
             effects = [EpollCtlAdd 4 1, MutexLock, EpollCtlAdd 4 1, EventfdWrite, MutexUnlock]\<rparr>) \<and>
   dispatch [(4, 1)]
     \<lparr>is_running = False, thread_set = {}, fds = [(4, 1) \<mapsto> 7], tasks = [],
      event_fd = 4, effects = []\<rparr> =
     \<lparr>is_running = False, thread_set = {}, fds = [(4, 1) \<mapsto> 7], tasks = [],
      event_fd = 4, effects = [MutexUnlock, CallFd 7 1, MutexLock]\<rparr> \<and>
   EventfdRead \<notin> set (effects (dispatch [(4, 1)]
     \<lparr>is_running = False, thread_set = {}, fds = [(4, 1) \<mapsto> 7], tasks = [],
      event_fd = 4, effects = []\<rparr>))"
  by (simp add: dispatch_event_def emit_def watchFd_def EventManager_new_def Let_def)

subsection \<open>Scheduling a task\<close>

text \<open>
  C9. \<^verbatim>\<open>enqueue\<close> has no failure path. Its type has no status to return; for every
  callback, every deadline (one in the past, one equal to a queued task's) and every
  state of the object, the vector of tasks afterwards holds exactly the tasks before
  and the new task once more: nothing is refused as a duplicate or for lack of room.
  The other fields of the object stay as they were.
\<close>

theorem enqueue_adds_one_task:
  "mset (tasks (enqueue f w s)) = add_mset \<lparr>t_when = w, t_f = f\<rparr> (mset (tasks s)) \<and>
   length (tasks (enqueue f w s)) = Suc (length (tasks s)) \<and>
   is_running (enqueue f w s) = is_running s \<and>
   thread_set (enqueue f w s) = thread_set s \<and>
   fds (enqueue f w s) = fds s"
  by (simp add: enqueue_def Let_def emit_def mset_push_heap)

subsection \<open>Starting no worker\<close>

text \<open>
  C10. \<^verbatim>\<open>start\<close> with a thread count of 0 or less, called by a thread that is not in the
  registry (any thread, when the registry is empty), returns true and sets
  \<^verbatim>\<open>_is_running\<close>; it creates no thread and leaves the registry as it was. From then on,
  however the public member functions are called, as long as no \<^verbatim>\<open>start\<close> has a positive
  thread count, the registry gets no thread, no thread is created and no callback of a
  task or a watch is called: callbacks are called in \<^verbatim>\<open>thread_main\<close> only, which runs in
  created threads only.
\<close>

theorem start_without_workers:
  "(num_threads \<le> 0 \<and> self \<notin> thread_set s \<longrightarrow>
      start num_threads self mk s =
        (True, s\<lparr>is_running := True, effects := effects s @ [MutexLock, MutexUnlock]\<rparr>)) \<and>
   ((\<forall>c\<in>set calls. \<not> spawns c) \<longrightarrow>
      thread_set (run_api calls s) \<subseteq> thread_set s \<and>
      (\<forall>e\<in>set (new_effects s (run_api calls s)). \<not> runs_code e))"
proof -
  have a: "start num_threads self mk s =
        (True, s\<lparr>is_running := True, effects := effects s @ [MutexLock, MutexUnlock]\<rparr>)"
    if "num_threads \<le> 0" "self \<notin> thread_set s"
  proof -
    have "[0..num_threads - 1] = []" and "{0..<num_threads} = {}" using that by simp_all
    then show ?thesis using that
      by (simp add: start_def Let_def emit_def start_loop_closed)
  qed
  have b: "thread_set (run_api calls s) \<subseteq> thread_set s \<and>
      (\<forall>e\<in>set (new_effects s (run_api calls s)). \<not> runs_code e)"
    if "\<forall>c\<in>set calls. \<not> spawns c"
    using run_api_quiet [OF that, of s] by (auto simp: new_effects_def)
  show ?thesis using a b by blast
qed

text \<open>
  On a new object: \<^verbatim>\<open>start(0)\<close>, then a task, a watch and \<^verbatim>\<open>start(-2)\<close>. The reactor is
  running, the registry is empty, and nothing has been run.
\<close>

theorem start_without_workers_witness:
  "start 0 9 (\<lambda>i. nat i + 10) (EventManager_new 4) =
     (True, \<lparr>is_running = True, thread_set = {}, fds = Map.empty, tasks = [],
             event_fd = 4, effects = [EpollCtlAdd 4 1, MutexLock, MutexUnlock]\<rparr>) \<and>
   thread_set (run_api [Start 0 9 (\<lambda>i. nat i + 10), Enqueue 1 0, WatchFd 5 1 7, Start (- 2) 9 (\<lambda>i. 0)]
                 (EventManager_new 4)) \<subseteq> {} \<and>
   list_all (\<lambda>e. \<not> runs_code e)
     (new_effects (EventManager_new 4)
        (run_api [Start 0 9 (\<lambda>i. nat i + 10), Enqueue 1 0, WatchFd 5 1 7, Start (- 2) 9 (\<lambda>i. 0)]
                 (EventManager_new 4)))"
  using start_without_workers [of 0 9 "EventManager_new 4" "\<lambda>i. nat i + 10"
      "[Start 0 9 (\<lambda>i. nat i + 10), Enqueue 1 0, WatchFd 5 1 7, Start (- 2) 9 (\<lambda>i. 0)]"]
  by (simp add: EventManager_new_def list_all_iff)

end
